theory Spec2Isabelle
  imports Complex_Main "HOL-Library.Multiset"
begin

section \<open>Jobs\<close>

text \<open>
  The module defines its classes three times over; the last definition of each is the
  one in force (lines 683 onwards of \<^verbatim>\<open>Spark_job_Schedule.py\<close>) and is the one
  embedded here. Python integers are \<^typ>\<open>int\<close>, \<^verbatim>\<open>Fraction\<close> is \<^typ>\<open>rat\<close>.
\<close>

datatype error = ZeroDivisionError | KeyError | IndexError | NotImplemented

record app =
  app_id :: int
  duration :: int
  nominalRate :: rat
  deadline :: int

text \<open>\<^verbatim>\<open>App.__init__\<close>: \<^verbatim>\<open>Fraction(1, duration)\<close> raises for a zero duration.\<close>

definition App :: "int \<Rightarrow> int \<Rightarrow> int \<Rightarrow> error + app" where
  "App i d dl =
     (if d = 0 then Inl ZeroDivisionError
      else Inr \<lparr>app_id = i, duration = d, nominalRate = Fract 1 d, deadline = dl\<rparr>)"

text \<open>\<^verbatim>\<open>App.__eq__\<close> compares the ids only (and \<^verbatim>\<open>__hash__\<close> is the id).\<close>

definition app_eq :: "app \<Rightarrow> app \<Rightarrow> bool" where
  "app_eq a b = (app_id a = app_id b)"

text \<open>A job as the constructor builds it from a positive duration.\<close>

definition app_ok :: "app \<Rightarrow> bool" where
  "app_ok a = (0 < duration a \<and> nominalRate a = Fract 1 (duration a))"

section \<open>Dictionaries keyed by jobs\<close>

text \<open>
  A Python \<^verbatim>\<open>dict\<close> whose keys are jobs: the entries in insertion order, the keys
  pairwise different under \<^const>\<open>app_eq\<close>. A lookup finds the entry whose key has the
  id asked for; storing under a key that is present replaces the value and keeps the
  stored key object and its position; storing under a new key appends.
\<close>

type_synonym 'v dict = "(app \<times> 'v) list"

definition dict_ok :: "'v dict \<Rightarrow> bool" where
  "dict_ok d = distinct (map (\<lambda>e. app_id (fst e)) d)"

fun dict_get :: "'v dict \<Rightarrow> app \<Rightarrow> 'v option" where
  "dict_get [] a = None"
| "dict_get ((k, v) # d) a = (if app_eq k a then Some v else dict_get d a)"

definition dict_in :: "app \<Rightarrow> 'v dict \<Rightarrow> bool" where
  "dict_in a d = (dict_get d a \<noteq> None)"

fun dict_set :: "'v dict \<Rightarrow> app \<Rightarrow> 'v \<Rightarrow> 'v dict" where
  "dict_set [] a v = [(a, v)]"
| "dict_set ((k, w) # d) a v = (if app_eq k a then (k, v) # d else (k, w) # dict_set d a v)"

text \<open>\<^verbatim>\<open>del d[a]\<close>, called only under \<^verbatim>\<open>if a in d\<close>; a dict holds one entry per key.\<close>

definition dict_del :: "'v dict \<Rightarrow> app \<Rightarrow> 'v dict" where
  "dict_del d a = filter (\<lambda>e. \<not> app_eq (fst e) a) d"

definition dict_keys :: "'v dict \<Rightarrow> app list" where
  "dict_keys d = map fst d"

text \<open>\<^verbatim>\<open>d1 == d2\<close> on dicts: the same size, and every key of the one is a key of the
  other with an equal value. The insertion order plays no part.\<close>

definition dict_eq :: "'v dict \<Rightarrow> 'v dict \<Rightarrow> bool" where
  "dict_eq d1 d2 =
     (length d1 = length d2 \<and> list_all (\<lambda>e. dict_get d2 (fst e) = Some (snd e)) d1)"

section \<open>Timeline states\<close>

text \<open>
  \<^verbatim>\<open>Spark\<close>: \<^verbatim>\<open>running\<close> maps a job to (submission time, progress), \<^verbatim>\<open>ended\<close> to
  (submission time, finish time). The \<^verbatim>\<open>scheduler\<close> attribute is a reference to one
  policy object that every state made by \<^verbatim>\<open>schedule\<close> and \<^verbatim>\<open>tick\<close> shares; its
  contents are threaded through the operations that call it.
\<close>

record spark =
  running :: "(int \<times> rat) dict"
  ended :: "(int \<times> int) dict"

definition Spark0 :: spark where
  "Spark0 = \<lparr>running = [], ended = []\<rparr>"

text \<open>\<^verbatim>\<open>Spark.schedule\<close>. The \<^verbatim>\<open>for ... else\<close> returns \<^verbatim>\<open>self\<close> when no key of
  either dict has the id \<^verbatim>\<open>app.id - 1\<close>.\<close>

definition schedule :: "spark \<Rightarrow> app \<Rightarrow> int \<Rightarrow> spark" where
  "schedule s a time =
     (if dict_in a (running s) \<or> dict_in a (ended s) then s
      else if \<not> list_ex (\<lambda>k. app_id k = app_id a - 1)
                   (dict_keys (running s) @ dict_keys (ended s)) then s
      else \<lparr>running = dict_set (running s) a (time, 0), ended = ended s\<rparr>)"

section \<open>Scheduling policies\<close>

text \<open>Running a loop body that may raise over a list: the first exception ends it.\<close>

fun fold_err :: "('a \<Rightarrow> 's \<Rightarrow> error + 's) \<Rightarrow> 'a list \<Rightarrow> 's \<Rightarrow> error + 's" where
  "fold_err f [] s = Inr s"
| "fold_err f (x # xs) s = (case f x s of Inl e \<Rightarrow> Inl e | Inr s' \<Rightarrow> fold_err f xs s')"

text \<open>
  \<^verbatim>\<open>min(xs, key=f)\<close> and \<^verbatim>\<open>max(xs, key=f)\<close> keep the first item met whose key is
  extremal: a later item replaces the best one only when its key is strictly smaller
  (strictly greater for \<^verbatim>\<open>max\<close>).
\<close>

fun min_by :: "('a \<Rightarrow> 'k::linorder) \<Rightarrow> 'a \<Rightarrow> 'a list \<Rightarrow> 'a" where
  "min_by f best [] = best"
| "min_by f best (x # xs) = min_by f (if f x < f best then x else best) xs"

text \<open>\<^verbatim>\<open>max\<close> with a key that may raise \<^verbatim>\<open>KeyError\<close>; the key of every item is
  computed, in order.\<close>

fun max_by_err :: "('a \<Rightarrow> 'k::linorder option) \<Rightarrow> 'a \<times> 'k \<Rightarrow> 'a list \<Rightarrow> error + 'a" where
  "max_by_err f (best, kb) [] = Inr best"
| "max_by_err f (best, kb) (x # xs) =
     (case f x of
        None \<Rightarrow> Inl KeyError
      | Some kx \<Rightarrow> max_by_err f (if kx > kb then (x, kx) else (best, kb)) xs)"

definition py_max_err :: "('a \<Rightarrow> 'k::linorder option) \<Rightarrow> 'a \<Rightarrow> 'a list \<Rightarrow> error + 'a" where
  "py_max_err f x xs =
     (case f x of None \<Rightarrow> Inl KeyError | Some k \<Rightarrow> max_by_err f (x, k) xs)"

type_synonym running_t = "(int \<times> rat) dict"

text \<open>\<^verbatim>\<open>running[a] = (running[a][0], running[a][1] + inc)\<close>.\<close>

definition add_to :: "running_t \<Rightarrow> app \<Rightarrow> rat \<Rightarrow> error + running_t" where
  "add_to r a inc =
     (case dict_get r a of
        None \<Rightarrow> Inl KeyError
      | Some (sub, p) \<Rightarrow> Inr (dict_set r a (sub, p + inc)))"

text \<open>
  The state of a \<^verbatim>\<open>MultilevelFeedbackQueue\<close> object. Queue indices are the ones the
  code stores: \<^verbatim>\<open>0\<close> and \<^verbatim>\<open>min(i + 1, num_queues - 1)\<close> inside the service loop.
\<close>

record mlfq =
  num_queues :: int
  time_slices :: "rat list"
  queues :: "app list list"
  app_queue :: "nat dict"

text \<open>
  The policies. \<^verbatim>\<open>Scheduler\<close> is the base class; the stateful ones carry the contents
  of their attributes. Time slices are exact numbers (an \<^verbatim>\<open>int\<close> or a
  \<^verbatim>\<open>Fraction\<close>).
\<close>

datatype scheduler =
    Scheduler
  | FIFO
  | Fair
  | EDFAll
  | EDFPure
  | RoundRobin (time_slice: rat) (last_index: int)
  | ShortestJobNext
  | LeastLaxityFirst
  | PriorityScheduler (priorities: "int dict")
  | MLFQ mlfq

text \<open>The constructors that set attributes up.\<close>

definition RoundRobin_init :: "rat \<Rightarrow> scheduler" where
  "RoundRobin_init ts = RoundRobin ts (- 1)"

definition MultilevelFeedbackQueue :: "int \<Rightarrow> rat list \<Rightarrow> scheduler" where
  "MultilevelFeedbackQueue n ts =
     MLFQ \<lparr>num_queues = n, time_slices = ts, queues = replicate (nat n) [], app_queue = []\<rparr>"

text \<open>First loop of \<^verbatim>\<open>MultilevelFeedbackQueue.addProgress\<close>: forget the jobs that are
  no longer running.\<close>

definition remove_app :: "app \<Rightarrow> app list \<Rightarrow> app list" where
  "remove_app a q = takeWhile (\<lambda>x. \<not> app_eq x a) q @ drop 1 (dropWhile (\<lambda>x. \<not> app_eq x a) q)"

definition purge_step ::
  "running_t \<Rightarrow> app \<Rightarrow> app list list \<times> nat dict \<Rightarrow> error + app list list \<times> nat dict" where
  "purge_step r a st =
     (case st of (qs, aq) \<Rightarrow>
        if dict_in a r then Inr (qs, aq)
        else (case dict_get aq a of
                None \<Rightarrow> Inl KeyError
              | Some j \<Rightarrow>
                  if j \<ge> length qs then Inl IndexError
                  else Inr (if list_ex (\<lambda>x. app_eq x a) (qs ! j)
                            then qs[j := remove_app a (qs ! j)] else qs,
                            dict_del aq a)))"

text \<open>Second loop: new running jobs join queue 0.\<close>

definition admit_step ::
  "app \<Rightarrow> app list list \<times> nat dict \<Rightarrow> error + app list list \<times> nat dict" where
  "admit_step a st =
     (case st of (qs, aq) \<Rightarrow>
        if dict_in a aq then Inr (qs, aq)
        else (case qs of
                [] \<Rightarrow> Inl IndexError
              | q # rest \<Rightarrow> Inr ((q @ [a]) # rest, dict_set aq a 0)))"

text \<open>Third loop: serve the head of the first non-empty queue, then \<^verbatim>\<open>break\<close>.\<close>

fun service :: "mlfq \<Rightarrow> running_t \<Rightarrow> nat list \<Rightarrow> error + mlfq \<times> running_t" where
  "service m r [] = Inr (m, r)"
| "service m r (i # is) =
     (if i \<ge> length (queues m) then Inl IndexError
      else case queues m ! i of
        [] \<Rightarrow> service m r is
      | a # q \<Rightarrow>
          let qs1 = (queues m)[i := q] in
          if \<not> dict_in a r then Inr (m\<lparr>queues := qs1\<rparr>, r)
          else if i \<ge> length (time_slices m) then Inl IndexError
          else (case add_to r a (nominalRate a * (time_slices m ! i)) of
            Inl e \<Rightarrow> Inl e
          | Inr r' \<Rightarrow>
              (case dict_get r' a of
                 None \<Rightarrow> Inl KeyError
               | Some (sub, p) \<Rightarrow>
                   if p < 1 then
                     let next_queue = nat (min (int i + 1) (num_queues m - 1)) in
                     if next_queue \<ge> length qs1 then Inl IndexError
                     else Inr (m\<lparr>queues := qs1[next_queue := qs1 ! next_queue @ [a]],
                                 app_queue := dict_set (app_queue m) a next_queue\<rparr>, r')
                   else if \<not> dict_in a (app_queue m) then Inl KeyError
                   else Inr (m\<lparr>queues := qs1, app_queue := dict_del (app_queue m) a\<rparr>, r'))))"

definition mlfq_addProgress :: "mlfq \<Rightarrow> running_t \<Rightarrow> error + mlfq \<times> running_t" where
  "mlfq_addProgress m r =
     (case fold_err (purge_step r) (dict_keys (app_queue m)) (queues m, app_queue m) of
        Inl e \<Rightarrow> Inl e
      | Inr st1 \<Rightarrow>
          (case fold_err admit_step (dict_keys r) st1 of
             Inl e \<Rightarrow> Inl e
           | Inr (qs, aq) \<Rightarrow>
               service (m\<lparr>queues := qs, app_queue := aq\<rparr>) r [0 ..< nat (num_queues m)]))"

text \<open>
  \<^verbatim>\<open>addProgress(running, time)\<close> of each policy. The Python updates the dict it is
  given and the policy object in place; the model returns both. An entry of \<^verbatim>\<open>running\<close>
  is \<^verbatim>\<open>(job, (submissionTime, progress))\<close>, so \<^verbatim>\<open>running[app][0]\<close> for a key
  \<^verbatim>\<open>app\<close> is the first component of that entry's value.
\<close>

definition laxity :: "int \<Rightarrow> app \<times> int \<times> rat \<Rightarrow> rat" where
  "laxity time e = of_int (deadline (fst e) - time) - (1 - snd (snd e))"

fun addProgress :: "scheduler \<Rightarrow> running_t \<Rightarrow> int \<Rightarrow> error + scheduler \<times> running_t" where
  "addProgress Scheduler r time = Inl NotImplemented"
| "addProgress FIFO r time =
     (case r of [] \<Rightarrow> Inr (FIFO, r)
      | e # es \<Rightarrow>
          let first_app = fst (min_by (\<lambda>e. fst (snd e)) e es) in
          (case add_to r first_app (nominalRate first_app) of
             Inl err \<Rightarrow> Inl err | Inr r' \<Rightarrow> Inr (FIFO, r')))"
| "addProgress Fair r time =
     (case r of [] \<Rightarrow> Inr (Fair, r)
      | e # es \<Rightarrow>
          let cnt = length r in
          (case fold_err (\<lambda>a r. add_to r a (nominalRate a / of_nat cnt)) (dict_keys r) r of
             Inl err \<Rightarrow> Inl err | Inr r' \<Rightarrow> Inr (Fair, r')))"
| "addProgress EDFAll r time =
     (case r of [] \<Rightarrow> Inr (EDFAll, r)
      | e # es \<Rightarrow>
          (case fold_err (\<lambda>a r. add_to r a (nominalRate a)) (dict_keys r) r of
             Inl err \<Rightarrow> Inl err | Inr r' \<Rightarrow> Inr (EDFAll, r')))"
| "addProgress EDFPure r time =
     (case r of [] \<Rightarrow> Inr (EDFPure, r)
      | e # es \<Rightarrow>
          let earliest_app = fst (min_by (\<lambda>e. deadline (fst e)) e es) in
          (case add_to r earliest_app (nominalRate earliest_app) of
             Inl err \<Rightarrow> Inl err | Inr r' \<Rightarrow> Inr (EDFPure, r')))"
| "addProgress (RoundRobin ts li) r time =
     (case r of [] \<Rightarrow> Inr (RoundRobin ts li, r)
      | e # es \<Rightarrow>
          let li' = (li + 1) mod int (length r);
              a = dict_keys r ! nat li' in
          (case add_to r a (nominalRate a * ts) of
             Inl err \<Rightarrow> Inl err | Inr r' \<Rightarrow> Inr (RoundRobin ts li', r')))"
| "addProgress ShortestJobNext r time =
     (case r of [] \<Rightarrow> Inr (ShortestJobNext, r)
      | e # es \<Rightarrow>
          let shortest_app = fst (min_by (\<lambda>e. duration (fst e)) e es) in
          (case add_to r shortest_app (nominalRate shortest_app) of
             Inl err \<Rightarrow> Inl err | Inr r' \<Rightarrow> Inr (ShortestJobNext, r')))"
| "addProgress LeastLaxityFirst r time =
     (case r of [] \<Rightarrow> Inr (LeastLaxityFirst, r)
      | e # es \<Rightarrow>
          let least_lax_app = fst (min_by (laxity time) e es) in
          (case add_to r least_lax_app (nominalRate least_lax_app) of
             Inl err \<Rightarrow> Inl err | Inr r' \<Rightarrow> Inr (LeastLaxityFirst, r')))"
| "addProgress (PriorityScheduler pr) r time =
     (case r of [] \<Rightarrow> Inr (PriorityScheduler pr, r)
      | e # es \<Rightarrow>
          (case py_max_err (dict_get pr) (fst e) (dict_keys es) of
             Inl err \<Rightarrow> Inl err
           | Inr highest_priority_app \<Rightarrow>
               (case add_to r highest_priority_app (nominalRate highest_priority_app) of
                  Inl err \<Rightarrow> Inl err | Inr r' \<Rightarrow> Inr (PriorityScheduler pr, r'))))"
| "addProgress (MLFQ m) r time =
     (case r of [] \<Rightarrow> Inr (MLFQ m, r)
      | e # es \<Rightarrow>
          (case mlfq_addProgress m r of
             Inl err \<Rightarrow> Inl err | Inr (m', r') \<Rightarrow> Inr (MLFQ m', r')))"

text \<open>
  \<^verbatim>\<open>Spark.tick\<close>. Both loops run over the dicts as the code does: the first stores
  every finished job in \<^verbatim>\<open>ended\<close>, the second deletes from \<^verbatim>\<open>running\<close> every key of
  \<^verbatim>\<open>ended\<close> found there.
\<close>

definition tick :: "scheduler \<Rightarrow> spark \<Rightarrow> int \<Rightarrow> error + scheduler \<times> spark" where
  "tick sch s time =
     (if running s = [] then Inr (sch, s)
      else case addProgress sch (running s) time of
        Inl err \<Rightarrow> Inl err
      | Inr (sch', r) \<Rightarrow>
          let ended' = fold (\<lambda>e en. if snd (snd e) \<ge> 1
                                     then dict_set en (fst e) (fst (snd e), time) else en)
                            r (ended s);
              running' = fold (\<lambda>a ru. if dict_in a ru then dict_del ru a else ru)
                              (dict_keys ended') r
          in Inr (sch', \<lparr>running = running', ended = ended'\<rparr>))"

section \<open>Equality and hashing of states\<close>

text \<open>\<^verbatim>\<open>Spark.__eq__\<close>.\<close>

definition spark_eq :: "spark \<Rightarrow> spark \<Rightarrow> bool" where
  "spark_eq s1 s2 = (dict_eq (running s1) (running s2) \<and> dict_eq (ended s1) (ended s2))"

text \<open>
  \<^verbatim>\<open>Spark.__repr__\<close> is \<^verbatim>\<open>"r:%s, e:%s" % (self.running, self.ended)\<close>: the text of a
  dict lists its entries in insertion order, a job prints as \<^verbatim>\<open>app\<close> followed by its id, a
  fraction as \<^verbatim>\<open>Fraction(n, d)\<close> in lowest terms.
\<close>

definition digit :: "nat \<Rightarrow> char" where
  "digit n = ''0123456789'' ! n"

function show_nat :: "nat \<Rightarrow> string" where
  "show_nat n = (if n < 10 then [digit n] else show_nat (n div 10) @ [digit (n mod 10)])"
  by pat_completeness auto
termination
  by (relation "measure (\<lambda>n. n)") auto

declare show_nat.simps [simp del]

definition show_int :: "int \<Rightarrow> string" where
  "show_int i = (if i < 0 then CHR ''-'' # show_nat (nat (- i)) else show_nat (nat i))"

fun join :: "string \<Rightarrow> string list \<Rightarrow> string" where
  "join sep [] = []"
| "join sep [x] = x"
| "join sep (x # y # ys) = x @ sep @ join sep (y # ys)"

definition repr_app :: "app \<Rightarrow> string" where
  "repr_app a = ''app'' @ show_int (app_id a)"

definition repr_Fraction :: "rat \<Rightarrow> string" where
  "repr_Fraction p =
     ''Fraction('' @ show_int (fst (quotient_of p)) @ '', '' @ show_int (snd (quotient_of p)) @ '')''"

definition repr_running_value :: "int \<times> rat \<Rightarrow> string" where
  "repr_running_value v = ''('' @ show_int (fst v) @ '', '' @ repr_Fraction (snd v) @ '')''"

definition repr_ended_value :: "int \<times> int \<Rightarrow> string" where
  "repr_ended_value v = ''('' @ show_int (fst v) @ '', '' @ show_int (snd v) @ '')''"

definition repr_dict :: "('v \<Rightarrow> string) \<Rightarrow> 'v dict \<Rightarrow> string" where
  "repr_dict f d = ''{'' @ join '', '' (map (\<lambda>e. repr_app (fst e) @ '': '' @ f (snd e)) d) @ ''}''"

definition spark_repr :: "spark \<Rightarrow> string" where
  "spark_repr s =
     ''r:'' @ repr_dict repr_running_value (running s) @
     '', e:'' @ repr_dict repr_ended_value (ended s)"

text \<open>\<^verbatim>\<open>Spark.__hash__\<close> is \<^verbatim>\<open>hash(self.__repr__())\<close>. The hash of a string is
  Python's own; it is the parameter \<open>h\<close>.\<close>

definition spark_hash :: "(string \<Rightarrow> int) \<Rightarrow> spark \<Rightarrow> int" where
  "spark_hash h s = h (spark_repr s)"

section \<open>Sets of states, branching and exploration\<close>

text \<open>
  A Python \<^verbatim>\<open>set\<close> of states, as the list of its elements in the order they were
  added. An element is found in a set when its hash equals that of a stored element and
  the two are the same object or compare equal.
\<close>

definition same_elem :: "(string \<Rightarrow> int) \<Rightarrow> spark \<Rightarrow> spark \<Rightarrow> bool" where
  "same_elem h x y = (spark_hash h x = spark_hash h y \<and> (x = y \<or> spark_eq x y))"

definition set_add :: "(string \<Rightarrow> int) \<Rightarrow> spark list \<Rightarrow> spark \<Rightarrow> spark list" where
  "set_add h S x = (if list_ex (\<lambda>y. same_elem h y x) S then S else S @ [x])"

text \<open>\<^verbatim>\<open>A | B\<close> and \<^verbatim>\<open>A |= B\<close>: the elements of \<open>A\<close>, then those of \<open>B\<close> not found.\<close>

definition set_union :: "(string \<Rightarrow> int) \<Rightarrow> spark list \<Rightarrow> spark list \<Rightarrow> spark list" where
  "set_union h A B = fold (\<lambda>x S. set_add h S x) B A"

text \<open>\<^verbatim>\<open>x in S\<close> for a set of states.\<close>

definition set_member :: "(string \<Rightarrow> int) \<Rightarrow> spark list \<Rightarrow> spark \<Rightarrow> bool" where
  "set_member h S x = list_ex (\<lambda>y. same_elem h y x) S"

fun nextStates :: "(string \<Rightarrow> int) \<Rightarrow> app list \<Rightarrow> spark \<Rightarrow> int \<Rightarrow> spark list" where
  "nextStates h [] state time = [state]"
| "nextStates h (a # apps) state time =
     set_union h (nextStates h apps (schedule state a time) time)
                 (nextStates h apps state time)"

text \<open>
  \<^verbatim>\<open>simulate\<close>. The inner loop runs over the current set in the order Python iterates
  over it, which depends on the hashes: \<open>iter\<close> gives that order. Every state holds
  the same policy object, so its contents pass from one \<^verbatim>\<open>tick\<close> to the next.
\<close>

fun simulate_states ::
  "(string \<Rightarrow> int) \<Rightarrow> app list \<Rightarrow> int \<Rightarrow> scheduler \<Rightarrow> spark list \<Rightarrow> spark list
     \<Rightarrow> error + scheduler \<times> spark list" where
  "simulate_states h apps t sch [] newStates = Inr (sch, newStates)"
| "simulate_states h apps t sch (state # states) newStates =
     (case tick sch state t of
        Inl err \<Rightarrow> Inl err
      | Inr (sch', state') \<Rightarrow>
          simulate_states h apps t sch' states
            (set_union h newStates (nextStates h apps state' t)))"

fun simulate_steps ::
  "(string \<Rightarrow> int) \<Rightarrow> (spark list \<Rightarrow> spark list) \<Rightarrow> app list \<Rightarrow> scheduler \<Rightarrow> spark list
     \<Rightarrow> int list \<Rightarrow> error + scheduler \<times> spark list" where
  "simulate_steps h iter apps sch states [] = Inr (sch, states)"
| "simulate_steps h iter apps sch states (t # ts) =
     (case simulate_states h apps t sch (iter states) [] of
        Inl err \<Rightarrow> Inl err
      | Inr (sch', newStates) \<Rightarrow> simulate_steps h iter apps sch' newStates ts)"

definition simulate ::
  "(string \<Rightarrow> int) \<Rightarrow> (spark list \<Rightarrow> spark list) \<Rightarrow> scheduler \<Rightarrow> spark \<Rightarrow> app list \<Rightarrow> int
     \<Rightarrow> error + scheduler \<times> spark list" where
  "simulate h iter sch initial apps steps =
     simulate_steps h iter apps sch [initial] [0 .. steps]"

text \<open>An iteration order visits every element of the set once.\<close>

definition iter_ok :: "(spark list \<Rightarrow> spark list) \<Rightarrow> bool" where
  "iter_ok iter = (\<forall>S. mset (iter S) = mset S)"

section \<open>Classifier\<close>

definition computeViolations :: "spark \<Rightarrow> app list \<Rightarrow> int \<Rightarrow> bool" where
  "computeViolations s apps steps =
     list_ex (\<lambda>a. case dict_get (ended s) a of
                     None \<Rightarrow> False
                   | Some (sub, fin) \<Rightarrow> fin - sub > deadline a) apps"

definition computeUnfeasibility :: "spark \<Rightarrow> app list \<Rightarrow> int \<Rightarrow> bool" where
  "computeUnfeasibility s apps steps =
     list_ex (\<lambda>a. (\<not> dict_in a (ended s) \<and> \<not> dict_in a (running s)) \<or>
                  (case dict_get (running s) a of
                     None \<Rightarrow> False
                   | Some (sub, p) \<Rightarrow> sub + duration a > steps)) apps"

definition computeScenarioViolations :: "spark \<Rightarrow> app list \<Rightarrow> int \<Rightarrow> bool" where
  "computeScenarioViolations s apps steps =
     (if computeViolations s apps steps \<or> computeUnfeasibility s apps steps then False
      else list_ex (\<lambda>a. \<not> dict_in a (ended s) \<and>
                        (case dict_get (running s) a of
                           None \<Rightarrow> False
                         | Some (sub, p) \<Rightarrow> sub + duration a \<le> steps)) apps)"

definition computeNonViolations :: "spark \<Rightarrow> app list \<Rightarrow> int \<Rightarrow> bool" where
  "computeNonViolations s apps steps =
     (\<not> computeViolations s apps steps \<and>
      \<not> computeScenarioViolations s apps steps \<and>
      \<not> computeUnfeasibility s apps steps)"

section \<open>Metrics\<close>

text \<open>
  \<^verbatim>\<open>Spark.error\<close> and \<^verbatim>\<open>computeMetrics\<close>. The Python computes the averages and
  percentages in floating point; the model gives the exact quotients, and raises
  \<^verbatim>\<open>ZeroDivisionError\<close> exactly where the Python does: in \<^verbatim>\<open>Fraction(..., app.deadline)\<close>
  for a zero deadline and in the divisions by \<^verbatim>\<open>len(states)\<close>.
\<close>

definition error_step :: "app \<times> int \<times> int \<Rightarrow> rat \<times> rat \<Rightarrow> error + rat \<times> rat" where
  "error_step e acc =
     (let exec_time = snd (snd e) - fst (snd e) in
      if deadline (fst e) = 0 then Inl ZeroDivisionError
      else let x = Fract (deadline (fst e) - exec_time) (deadline (fst e)) in
           if x < 0 then Inr (fst acc, snd acc + - x) else Inr (fst acc + x, snd acc))"

definition spark_error :: "spark \<Rightarrow> app list \<Rightarrow> error + rat \<times> rat" where
  "spark_error s apps =
     (case fold_err error_step (ended s) (0, 0) of
        Inl err \<Rightarrow> Inl err
      | Inr acc \<Rightarrow>
          let n = length apps in
          if n > 0 then Inr (fst acc / of_nat n, snd acc / of_nat n) else Inr (0, 0))"

definition sum_errors :: "spark list \<Rightarrow> app list \<Rightarrow> error + rat \<times> rat" where
  "sum_errors states apps =
     fold_err (\<lambda>s acc. case spark_error s apps of
                           Inl err \<Rightarrow> Inl err
                         | Inr e \<Rightarrow> Inr (fst acc + fst e, snd acc + snd e)) states (0, 0)"

text \<open>The (turnaround, job) pairs of the first loop: one per state and job of the list that
  has ended in it.\<close>

definition ended_tasks :: "spark list \<Rightarrow> app list \<Rightarrow> (int \<times> app) list" where
  "ended_tasks states apps =
     concat (map (\<lambda>s. List.map_filter
                         (\<lambda>a. case dict_get (ended s) a of
                                 None \<Rightarrow> None
                               | Some v \<Rightarrow> Some (snd v - fst v, a)) apps) states)"

record metrics =
  avg_turnaround_time :: rat
  avg_waiting_time :: rat
  deadline_adherence_pct :: rat
  eA_pct :: rat
  eD_pct :: rat
  violations_pct :: rat
  scenario_violations_pct :: rat
  unfeasibles_pct :: rat
  non_violations_pct :: rat
  num_states :: nat
  num_tasks :: nat

definition computeMetrics :: "spark list \<Rightarrow> app list \<Rightarrow> int \<Rightarrow> error + metrics" where
  "computeMetrics states apps steps =
     (let tasks = ended_tasks states apps;
          total_turnaround = sum_list (map fst tasks);
          total_waiting = sum_list (map (\<lambda>p. max 0 (fst p - duration (snd p))) tasks);
          count_tasks = length tasks;
          on_time_tasks = length (filter (\<lambda>p. fst p \<le> deadline (snd p)) tasks);
          n = length states;
          pct = (\<lambda>f. of_nat (length (filter (\<lambda>s. f s apps steps) states)) / of_nat n * 100)
      in case sum_errors states apps of
           Inl err \<Rightarrow> Inl err
         | Inr tot \<Rightarrow>
             if n = 0 then Inl ZeroDivisionError
             else Inr \<lparr>avg_turnaround_time =
                          (if count_tasks \<noteq> 0 then of_int total_turnaround / of_nat count_tasks else 0),
                        avg_waiting_time =
                          (if count_tasks \<noteq> 0 then of_int total_waiting / of_nat count_tasks else 0),
                        deadline_adherence_pct =
                          (if count_tasks \<noteq> 0
                           then of_nat on_time_tasks / of_nat count_tasks * 100 else 0),
                        eA_pct = fst tot / of_nat n * 100,
                        eD_pct = snd tot / of_nat n * 100,
                        violations_pct = pct computeViolations,
                        scenario_violations_pct = pct computeScenarioViolations,
                        unfeasibles_pct = pct computeUnfeasibility,
                        non_violations_pct = pct computeNonViolations,
                        num_states = n,
                        num_tasks = count_tasks\<rparr>)"

section \<open>Notions used in the statements\<close>

text \<open>The ids of the jobs that are keys of a dict, and presence of a job id in a state
  (as a key of \<^verbatim>\<open>running\<close> or of \<^verbatim>\<open>ended\<close>).\<close>

definition ids :: "'v dict \<Rightarrow> int set" where
  "ids d = (\<lambda>e. app_id (fst e)) ` set d"

definition present :: "spark \<Rightarrow> int \<Rightarrow> bool" where
  "present s i = (i \<in> ids (running s) \<union> ids (ended s))"

text \<open>Jobs of the concrete scenarios, as \<^const>\<open>App\<close> builds them.\<close>

definition job_a :: app where
  "job_a = \<lparr>app_id = 1, duration = 2, nominalRate = 1 / 2, deadline = 2\<rparr>"

definition unit1 :: app where
  "unit1 = \<lparr>app_id = 1, duration = 1, nominalRate = 1, deadline = 1\<rparr>"

definition unit2 :: app where
  "unit2 = \<lparr>app_id = 2, duration = 1, nominalRate = 1, deadline = 1\<rparr>"

text \<open>One iteration order (that of insertion) and one string hash (the constant one,
  under which two states are one element of a set as soon as they compare equal), for
  the concrete runs.\<close>

definition insertion_order :: "spark list \<Rightarrow> spark list" where
  "insertion_order S = S"

definition zero_hash :: "string \<Rightarrow> int" where
  "zero_hash s = 0"

text \<open>The seed of scenario A: the job already running, submitted at time 1.\<close>

definition seed_a :: spark where
  "seed_a = \<lparr>running = [(job_a, (1, 0))], ended = []\<rparr>"

text \<open>Two states with the same entries, inserted in opposite orders.\<close>

definition state_AB :: spark where
  "state_AB = \<lparr>running = [(unit1, (0, 0)), (unit2, (0, 0))], ended = []\<rparr>"

definition state_BA :: spark where
  "state_BA = \<lparr>running = [(unit2, (0, 0)), (unit1, (0, 0))], ended = []\<rparr>"

text \<open>What \<^verbatim>\<open>addProgress\<close> may change in \<^verbatim>\<open>running\<close>: the keys with their
  submission times, in order, and the comparison of the progress values entry by entry.\<close>

definition subs :: "running_t \<Rightarrow> (app \<times> int) list" where
  "subs r = map (\<lambda>e. (fst e, fst (snd e))) r"

definition progress_le :: "running_t \<Rightarrow> running_t \<Rightarrow> bool" where
  "progress_le r r' = list_all2 (\<lambda>e e'. snd (snd e) \<le> snd (snd e')) r r'"

text \<open>
  The conditions under which the policies are used: every running job was built from a
  positive duration; a round-robin time slice is not negative; the priority table has
  an entry for every running job; the time slices of the multilevel queue are not
  negative and the jobs it holds were built from positive durations.
\<close>

definition policy_ok :: "scheduler \<Rightarrow> running_t \<Rightarrow> bool" where
  "policy_ok sch r =
     (list_all app_ok (dict_keys r) \<and>
      (case sch of
         RoundRobin ts li \<Rightarrow> 0 \<le> ts
       | PriorityScheduler pr \<Rightarrow> list_all (\<lambda>a. dict_in a pr) (dict_keys r)
       | MLFQ m \<Rightarrow> list_all (\<lambda>ts. 0 \<le> ts) (time_slices m) \<and>
                   list_all (list_all app_ok) (queues m)
       | _ \<Rightarrow> True))"

text \<open>Two unit jobs running, for the concrete runs of the policies.\<close>

definition two_running :: running_t where
  "two_running = [(unit1, (0, 0)), (unit2, (0, 0))]"

text \<open>The multilevel queue is the one policy whose call can fail on its own configuration.\<close>

definition is_MLFQ :: "scheduler \<Rightarrow> bool" where
  "is_MLFQ sch = (case sch of MLFQ m \<Rightarrow> True | _ \<Rightarrow> False)"

text \<open>The multilevel queue of the main script.\<close>

definition mlfq_sample :: scheduler where
  "mlfq_sample = MultilevelFeedbackQueue 3 [10, 20, 30]"

text \<open>
  A timeline state as the data model has it: each dict holds a key once, and no job is a
  key of both.
\<close>

definition timeline_ok :: "spark \<Rightarrow> bool" where
  "timeline_ok s =
     (dict_ok (running s) \<and> dict_ok (ended s) \<and>
      list_all (\<lambda>a. \<not> dict_in a (ended s)) (dict_keys (running s)))"

text \<open>The test of \<^verbatim>\<open>tick\<close> for a finished job, and the entry of \<^verbatim>\<open>ended\<close> it gets.\<close>

definition finished :: "app \<times> int \<times> rat \<Rightarrow> bool" where
  "finished e = (1 \<le> snd (snd e))"

definition end_at :: "int \<Rightarrow> app \<times> int \<times> rat \<Rightarrow> app \<times> int \<times> int" where
  "end_at time e = (fst e, (fst (snd e), time))"

text \<open>The state after a tick at time \<open>t\<close>, from the dict \<open>r\<close> that the policy left: the
  finished jobs move to the end of \<^verbatim>\<open>ended\<close> with \<open>(submissionTime, t)\<close>.\<close>

definition after_tick :: "spark \<Rightarrow> running_t \<Rightarrow> int \<Rightarrow> spark" where
  "after_tick s r t =
     \<lparr>running = filter (\<lambda>e. \<not> finished e) r,
      ended = ended s @ map (end_at t) (filter finished r)\<rparr>"

text \<open>A state in which one job of two finishes under a full-rate tick.\<close>

definition mixed_state :: spark where
  "mixed_state = \<lparr>running = [(job_a, (0, 0)), (unit2, (1, 0))], ended = []\<rparr>"

text \<open>
  The dependency order: every job of a state with an id above 1 has its predecessor (the
  job with the id one less) in the state.
\<close>

definition dep_inv :: "spark \<Rightarrow> bool" where
  "dep_inv s =
     list_all (\<lambda>a. app_id a \<le> 1 \<or> present s (app_id a - 1))
       (dict_keys (running s) @ dict_keys (ended s))"

text \<open>The seed of the main script for the two unit jobs: the first job running.\<close>

definition seed_u :: spark where
  "seed_u = \<lparr>running = [(unit1, (0, 0))], ended = []\<rparr>"

text \<open>
  The consistency of the queues of a \<^verbatim>\<open>MultilevelFeedbackQueue\<close> with its table
  \<^verbatim>\<open>app_queue\<close>: the table holds a key once, a queue holds a job once, every queued job
  is recorded in the table under the index of its queue, and every recorded index is that
  of a queue.
\<close>

definition queues_ok :: "app list list \<Rightarrow> nat dict \<Rightarrow> bool" where
  "queues_ok qs aq =
     (dict_ok aq \<and>
      (\<forall>q\<in>set qs. distinct (map app_id q)) \<and>
      (\<forall>i<length qs. \<forall>a\<in>set (qs ! i). dict_get aq a = Some i) \<and>
      (\<forall>e\<in>set aq. snd e < length qs))"

text \<open>
  A \<^verbatim>\<open>MultilevelFeedbackQueue\<close> as its constructor builds it from at least one queue and
  as many time slices as queues, and as \<^verbatim>\<open>addProgress\<close> keeps it.
\<close>

definition mlfq_ok :: "mlfq \<Rightarrow> bool" where
  "mlfq_ok m =
     (queues m \<noteq> [] \<and> length (queues m) = nat (num_queues m) \<and>
      length (queues m) \<le> length (time_slices m) \<and> queues_ok (queues m) (app_queue m))"

text \<open>No queue holds a job with the id of \<open>a\<close>.\<close>

definition not_queued :: "app \<Rightarrow> app list list \<Rightarrow> bool" where
  "not_queued a qs = (\<forall>q\<in>set qs. \<forall>x\<in>set q. app_id x \<noteq> app_id a)"

text \<open>
  The policies none of whose steps can raise: those without a table or a queue to
  consult, and the multilevel queue in a consistent state. (The priority policy raises
  for a job that is missing from its table.)
\<close>

definition cannot_raise :: "scheduler \<Rightarrow> bool" where
  "cannot_raise sch =
     (case sch of
        Scheduler \<Rightarrow> False
      | PriorityScheduler pr \<Rightarrow> False
      | MLFQ m \<Rightarrow> mlfq_ok m
      | _ \<Rightarrow> True)"

text \<open>No job that has ended has a zero deadline.\<close>

definition deadlines_ok :: "spark \<Rightarrow> bool" where
  "deadlines_ok s = list_all (\<lambda>e. deadline (fst e) \<noteq> 0) (ended s)"

section \<open>Properties of dictionaries\<close>

lemma ids_simps [simp]:
  "ids [] = {}"
  "ids (e # d) = insert (app_id (fst e)) (ids d)"
  "ids (d @ d') = ids d \<union> ids d'"
  by (auto simp: ids_def)

lemma dict_get_None_iff: "dict_get d a = None \<longleftrightarrow> app_id a \<notin> ids d"
  by (induction d) (auto simp: app_eq_def split: if_splits)

lemma dict_in_iff: "dict_in a d \<longleftrightarrow> app_id a \<in> ids d"
  by (simp add: dict_in_def dict_get_None_iff)

lemma dict_set_new: "\<not> dict_in a d \<Longrightarrow> dict_set d a v = d @ [(a, v)]"
  by (induction d) (auto simp: dict_in_iff app_eq_def)

lemma dict_get_append:
  "dict_get (d @ d') a = (case dict_get d a of None \<Rightarrow> dict_get d' a | Some v \<Rightarrow> Some v)"
  by (induction d) auto

lemma list_ex_keys:
  "list_ex (\<lambda>k. app_id k = i) (dict_keys d @ dict_keys d') \<longleftrightarrow> i \<in> ids d \<union> ids d'"
  by (auto simp: list_ex_iff dict_keys_def ids_def)

text \<open>The jobs of the concrete scenarios are what the constructor builds.\<close>

lemma jobs_built:
  "App 1 2 2 = Inr job_a" "App 1 1 1 = Inr unit1" "App 2 1 1 = Inr unit2"
  by (simp_all add: App_def job_a_def unit1_def unit2_def Fract_of_int_quotient)

section \<open>Scheduling a job\<close>

lemma schedule_unfold:
  "schedule s j t =
     (if present s (app_id j) \<or> \<not> present s (app_id j - 1) then s
      else \<lparr>running = running s @ [(j, (t, 0))], ended = ended s\<rparr>)"
proof -
  have in_iff: "dict_in j (running s) \<or> dict_in j (ended s) \<longleftrightarrow> present s (app_id j)"
    by (simp add: present_def dict_in_iff)
  have pred_iff: "list_ex (\<lambda>k. app_id k = app_id j - 1)
       (dict_keys (running s) @ dict_keys (ended s)) \<longleftrightarrow> present s (app_id j - 1)"
    unfolding present_def by (rule list_ex_keys)
  have new: "\<not> present s (app_id j) \<Longrightarrow>
      dict_set (running s) j (t, 0) = running s @ [(j, (t, 0))]"
    by (simp add: dict_set_new present_def dict_in_iff)
  show ?thesis
    unfolding schedule_def in_iff pred_iff using new by auto
qed

text \<open>
  C5. \<^verbatim>\<open>schedule(j, t)\<close> returns the state itself when \<open>j\<close> is already a key of
  \<^verbatim>\<open>running\<close> or \<^verbatim>\<open>ended\<close>, or when no key of either has the id \<open>j.id - 1\<close>;
  otherwise the result is the state with \<open>j\<close> added to \<^verbatim>\<open>running\<close> (as its newest
  entry) at \<open>(t, 0)\<close>, and \<^verbatim>\<open>ended\<close> as it was.
\<close>

theorem schedule_spec:
  "((present s (app_id j) \<or> \<not> present s (app_id j - 1)) \<longrightarrow> schedule s j t = s) \<and>
   (\<not> present s (app_id j) \<and> present s (app_id j - 1) \<longrightarrow>
      schedule s j t = \<lparr>running = running s @ [(j, (t, 0))], ended = ended s\<rparr> \<and>
      dict_get (running (schedule s j t)) j = Some (t, 0) \<and>
      ended (schedule s j t) = ended s)"
proof -
  have get: "\<not> present s (app_id j) \<Longrightarrow>
      dict_get (running s @ [(j, (t, 0))]) j = Some (t, 0)"
    by (simp add: dict_get_append present_def dict_get_None_iff[symmetric] app_eq_def)
  show ?thesis
    using get by (auto simp: schedule_unfold)
qed

theorem schedule_spec_witness:
  "schedule \<lparr>running = [(unit1, (0, 0))], ended = []\<rparr> unit2 5 =
     \<lparr>running = [(unit1, (0, 0)), (unit2, (5, 0))], ended = []\<rparr> \<and>
   schedule \<lparr>running = [], ended = [(unit1, (0, 1))]\<rparr> unit1 5 =
     \<lparr>running = [], ended = [(unit1, (0, 1))]\<rparr> \<and>
   schedule Spark0 unit2 5 = Spark0"
  using schedule_spec [of "\<lparr>running = [(unit1, (0, 0))], ended = []\<rparr>" unit2 5]
    schedule_spec [of "\<lparr>running = [], ended = [(unit1, (0, 1))]\<rparr>" unit1 5]
    schedule_spec [of Spark0 unit2 5]
  by (simp add: present_def unit1_def unit2_def Spark0_def)

section \<open>Classifier\<close>

text \<open>
  C9. \<^verbatim>\<open>computeNonViolations\<close> is true exactly when \<^verbatim>\<open>computeViolations\<close>,
  \<^verbatim>\<open>computeScenarioViolations\<close> and \<^verbatim>\<open>computeUnfeasibility\<close> are all false, and
  \<^verbatim>\<open>computeScenarioViolations\<close> is false whenever \<^verbatim>\<open>computeViolations\<close> or
  \<^verbatim>\<open>computeUnfeasibility\<close> is true.
\<close>

theorem classifier_consistent:
  "(computeNonViolations s apps steps \<longleftrightarrow>
      \<not> computeViolations s apps steps \<and> \<not> computeScenarioViolations s apps steps \<and>
      \<not> computeUnfeasibility s apps steps) \<and>
   (computeViolations s apps steps \<or> computeUnfeasibility s apps steps \<longrightarrow>
      \<not> computeScenarioViolations s apps steps)"
  by (auto simp: computeNonViolations_def computeScenarioViolations_def)

theorem classifier_consistent_witness:
  "computeUnfeasibility \<lparr>running = [(unit1, (2, 0))], ended = []\<rparr> [unit1] 2 \<and>
   \<not> computeScenarioViolations \<lparr>running = [(unit1, (2, 0))], ended = []\<rparr> [unit1] 2 \<and>
   \<not> computeNonViolations \<lparr>running = [(unit1, (2, 0))], ended = []\<rparr> [unit1] 2"
proof -
  have u: "computeUnfeasibility \<lparr>running = [(unit1, (2, 0))], ended = []\<rparr> [unit1] 2"
    by (simp add: computeUnfeasibility_def unit1_def app_eq_def)
  from u classifier_consistent [of "\<lparr>running = [(unit1, (2, 0))], ended = []\<rparr>" "[unit1]" 2]
  show ?thesis by blast
qed

section \<open>Sets of states\<close>

lemma iter_ok_insertion_order: "iter_ok insertion_order"
  by (simp add: iter_ok_def insertion_order_def)

lemma iter_single: "iter_ok iter \<Longrightarrow> iter [s] = [s]"
proof -
  assume "iter_ok iter"
  then have "mset (iter [s]) = {#s#}" by (simp add: iter_ok_def)
  then show ?thesis by (simp add: mset_single_iff_right)
qed

lemma same_elem_refl [simp]: "same_elem h x x"
  by (simp add: same_elem_def)

lemma set_union_single_same [simp]: "set_union h [x] [x] = [x]"
  by (simp add: set_union_def set_add_def)

lemma set_union_Nil_single [simp]: "set_union h [] [x] = [x]"
  by (simp add: set_union_def set_add_def)

section \<open>Exploration without a seed\<close>

lemma schedule_Spark0 [simp]: "schedule Spark0 a t = Spark0"
  by (simp add: schedule_unfold present_def Spark0_def)

lemma nextStates_Spark0 [simp]: "nextStates h apps Spark0 t = [Spark0]"
  by (induction apps) simp_all

lemma tick_Spark0 [simp]: "tick sch Spark0 t = Inr (sch, Spark0)"
  by (simp add: tick_def Spark0_def)

lemma simulate_steps_Spark0:
  "iter_ok iter \<Longrightarrow> simulate_steps h iter apps sch [Spark0] ts = Inr (sch, [Spark0])"
  by (induction ts) (simp_all add: iter_single)

text \<open>
  C1, as the code has it. \<^verbatim>\<open>schedule\<close> has no special case for the first job: job 1
  is added at \<open>(t, 0)\<close> only to a state that holds a job with id 0, and is otherwise
  refused like any job whose predecessor is absent. A timeline therefore gets its first
  job from the seed, and an exploration without a seed (of the two unit jobs over the
  horizon 2, as of any job list over any horizon and with any policy) ends with the
  empty state alone.
\<close>

theorem first_job_needs_seed:
  assumes "app_id j = 1" and "\<not> present s 1" and "iter_ok iter"
  shows "schedule s j t =
           (if present s 0 then \<lparr>running = running s @ [(j, (t, 0))], ended = ended s\<rparr> else s) \<and>
         simulate h iter sch Spark0 apps steps = Inr (sch, [Spark0])"
  using assms by (simp add: schedule_unfold simulate_def simulate_steps_Spark0)

theorem first_job_needs_seed_witness:
  "schedule \<lparr>running = [], ended = [(unit2, (0, 1))]\<rparr> unit1 3 =
      \<lparr>running = [], ended = [(unit2, (0, 1))]\<rparr> \<and>
   simulate zero_hash insertion_order Fair Spark0 [unit1, unit2] 2 = Inr (Fair, [Spark0])"
  using first_job_needs_seed [of unit1 "\<lparr>running = [], ended = [(unit2, (0, 1))]\<rparr>"
      insertion_order 3 zero_hash Fair "[unit1, unit2]" 2]
  by (simp add: unit1_def unit2_def present_def iter_ok_insertion_order)

text \<open>C1 as stated fails: job 1 is absent from the empty state, \<^verbatim>\<open>schedule\<close> leaves
  \<^verbatim>\<open>running\<close> empty, and the exploration of scenario B without a seed never admits a
  job.\<close>

theorem first_job_counterexample:
  "\<not> present Spark0 1 \<and> app_id unit1 = 1 \<and>
   running (schedule Spark0 unit1 0) = [] \<and>
   simulate zero_hash insertion_order Fair Spark0 [unit1, unit2] 2 = Inr (Fair, [Spark0])"
  by (simp add: present_def Spark0_def unit1_def schedule_def dict_in_def dict_keys_def
       simulate_def simulate_steps_Spark0[unfolded Spark0_def] iter_ok_insertion_order)

section \<open>Scenario A\<close>

lemma scenario_A_run:
  "iter_ok iter \<Longrightarrow> simulate h iter FIFO seed_a [job_a] 3 =
     Inr (FIFO, [\<lparr>running = [], ended = [(job_a, (1, 1))]\<rparr>])"
  by (simp add: simulate_def seed_a_def job_a_def tick_def add_to_def app_eq_def dict_in_def
       dict_keys_def dict_del_def schedule_def set_union_def set_add_def same_elem_def
       upto_rec1 iter_single)

text \<open>
  C2, as the code has it. The loop of \<^verbatim>\<open>simulate\<close> starts at time 0 and \<^verbatim>\<open>tick\<close>
  serves whatever is running, whatever its submission time: the seeded job gets its two
  full-rate increments at the ticks 0 and 1 and ends at time 1. The terminal set is the
  one state with nothing running and \<^verbatim>\<open>ended = {job1: (1, 1)}\<close>, and it has no
  deadline violation.
\<close>

theorem scenario_A:
  "iter_ok iter \<Longrightarrow>
   simulate h iter FIFO seed_a [job_a] 3 =
     Inr (FIFO, [\<lparr>running = [], ended = [(job_a, (1, 1))]\<rparr>]) \<and>
   \<not> computeViolations \<lparr>running = [], ended = [(job_a, (1, 1))]\<rparr> [job_a] 3"
  by (simp add: scenario_A_run) (simp add: computeViolations_def job_a_def app_eq_def)

theorem scenario_A_witness:
  "simulate zero_hash insertion_order FIFO seed_a [job_a] 3 =
     Inr (FIFO, [\<lparr>running = [], ended = [(job_a, (1, 1))]\<rparr>])"
  using scenario_A [OF iter_ok_insertion_order, of zero_hash] by simp

text \<open>C2 as stated fails: the job of scenario A ends at time 1, not at time 3.\<close>

theorem scenario_A_counterexample:
  "simulate zero_hash insertion_order FIFO seed_a [job_a] 3 =
     Inr (FIFO, [\<lparr>running = [], ended = [(job_a, (1, 1))]\<rparr>]) \<and>
   \<not> dict_eq [(job_a, (1, 1))] [(job_a, (1, 3 :: int))]"
  by (simp add: scenario_A_run iter_ok_insertion_order dict_eq_def app_eq_def)

section \<open>Equality and hashing\<close>

lemma show_int_small: "show_int 0 = ''0''" "show_int 1 = ''1''" "show_int 2 = ''2''"
  by (simp_all add: show_int_def show_nat.simps digit_def)

lemma repr_AB:
  "spark_repr state_AB = ''r:{app1: (0, Fraction(0, 1)), app2: (0, Fraction(0, 1))}, e:{}''"
  by (simp add: spark_repr_def state_AB_def repr_dict_def repr_app_def repr_running_value_def
      repr_Fraction_def unit1_def unit2_def show_int_small)

lemma repr_BA:
  "spark_repr state_BA = ''r:{app2: (0, Fraction(0, 1)), app1: (0, Fraction(0, 1))}, e:{}''"
  by (simp add: spark_repr_def state_BA_def repr_dict_def repr_app_def repr_running_value_def
      repr_Fraction_def unit1_def unit2_def show_int_small)

text \<open>
  C3 at two states that hold the same entries in opposite insertion orders. They compare
  equal, but \<^verbatim>\<open>__hash__\<close> hashes the printed text, which lists the entries in
  insertion order: the hashes are those of two different strings, and the union of the
  two singleton sets keeps both states unless the two strings happen to collide.
\<close>

theorem hash_depends_on_insertion_order:
  "spark_eq state_AB state_BA \<and>
   spark_hash h state_AB = h ''r:{app1: (0, Fraction(0, 1)), app2: (0, Fraction(0, 1))}, e:{}'' \<and>
   spark_hash h state_BA = h ''r:{app2: (0, Fraction(0, 1)), app1: (0, Fraction(0, 1))}, e:{}'' \<and>
   set_union h [state_AB] [state_BA] =
     (if h ''r:{app1: (0, Fraction(0, 1)), app2: (0, Fraction(0, 1))}, e:{}'' =
         h ''r:{app2: (0, Fraction(0, 1)), app1: (0, Fraction(0, 1))}, e:{}''
      then [state_AB] else [state_AB, state_BA])"
proof -
  have e: "spark_eq state_AB state_BA"
    by (simp add: spark_eq_def dict_eq_def state_AB_def state_BA_def unit1_def unit2_def
        app_eq_def)
  show ?thesis
    using e by (simp add: spark_hash_def repr_AB repr_BA set_union_def set_add_def same_elem_def)
qed

section \<open>Policies: what a call changes\<close>

lemma dict_get_Some_in: "dict_get d a = Some v \<Longrightarrow> \<exists>k. (k, v) \<in> set d \<and> app_id k = app_id a"
  by (induction d) (auto simp: app_eq_def split: if_splits)

lemma subs_dict_set:
  "dict_get r a = Some (sub, p) \<Longrightarrow> subs (dict_set r a (sub, q)) = subs r"
  by (induction r) (auto simp: subs_def split: if_splits)

lemma add_to_subs: "add_to r a inc = Inr r' \<Longrightarrow> subs r' = subs r"
  by (auto simp: add_to_def subs_dict_set split: option.splits)

lemma progress_le_refl [simp]: "progress_le r r"
  by (simp add: progress_le_def list_all2_same)

lemma progress_le_trans: "progress_le r r' \<Longrightarrow> progress_le r' r'' \<Longrightarrow> progress_le r r''"
  unfolding progress_le_def
  by (rule list_all2_trans[where ?P1.0 = "\<lambda>e e'. snd (snd e) \<le> snd (snd e')"
        and ?P2.0 = "\<lambda>e e'. snd (snd e) \<le> snd (snd e')"]) auto

lemma progress_le_dict_set:
  "dict_get r a = Some (sub, p) \<Longrightarrow> p \<le> q \<Longrightarrow> progress_le r (dict_set r a (sub, q))"
  by (induction r) (auto simp: progress_le_def list_all2_same split: if_splits)

lemma add_to_progress: "add_to r a inc = Inr r' \<Longrightarrow> 0 \<le> inc \<Longrightarrow> progress_le r r'"
  by (auto simp: add_to_def progress_le_dict_set split: option.splits)

lemma ids_subs: "ids r = (\<lambda>e. app_id (fst e)) ` set (subs r)"
  by (force simp: ids_def subs_def image_iff)

lemma add_to_total: "app_id a \<in> ids r \<Longrightarrow> \<exists>r'. add_to r a inc = Inr r'"
proof -
  assume "app_id a \<in> ids r"
  then have "dict_get r a \<noteq> None" by (simp add: dict_get_None_iff)
  then show ?thesis by (auto simp: add_to_def split: option.splits)
qed

lemma dict_keys_subs: "dict_keys r = map fst (subs r)"
  by (simp add: dict_keys_def subs_def comp_def)

lemma fold_add_to_subs:
  "fold_err (\<lambda>a r. add_to r a (g a)) ks r = Inr r' \<Longrightarrow> subs r' = subs r"
  by (induction ks arbitrary: r) (auto split: sum.splits dest: add_to_subs)

lemma fold_add_to_progress:
  "fold_err (\<lambda>a r. add_to r a (g a)) ks r = Inr r' \<Longrightarrow> \<forall>a\<in>set ks. 0 \<le> g a \<Longrightarrow> progress_le r r'"
proof (induction ks arbitrary: r)
  case Nil
  then show ?case by simp
next
  case (Cons k ks)
  from Cons.prems(1) obtain r1 where r1: "add_to r k (g k) = Inr r1"
    and rest: "fold_err (\<lambda>a r. add_to r a (g a)) ks r1 = Inr r'"
    by (auto split: sum.splits)
  have "progress_le r r1" using r1 Cons.prems(2) by (auto intro: add_to_progress)
  moreover have "progress_le r1 r'" using Cons.IH[OF rest] Cons.prems(2) by simp
  ultimately show ?case by (rule progress_le_trans)
qed

lemma fold_add_to_total:
  "\<forall>a\<in>set ks. app_id a \<in> ids r \<Longrightarrow> \<exists>r'. fold_err (\<lambda>a r. add_to r a (g a)) ks r = Inr r'"
proof (induction ks arbitrary: r)
  case Nil
  then show ?case by simp
next
  case (Cons k ks)
  from Cons.prems obtain r1 where r1: "add_to r k (g k) = Inr r1"
    using add_to_total[of k r "g k"] by auto
  have "ids r1 = ids r" using add_to_subs[OF r1] by (simp add: ids_subs)
  with Cons.prems have "\<forall>a\<in>set ks. app_id a \<in> ids r1" by simp
  from Cons.IH[OF this] r1 show ?case by auto
qed

lemma min_by_in: "min_by f b xs \<in> set (b # xs)"
  by (induction xs arbitrary: b) (auto split: if_splits)

lemma fst_in_keys: "e \<in> set r \<Longrightarrow> fst e \<in> set (dict_keys r)"
  by (simp add: dict_keys_def)

lemma key_in_ids: "a \<in> set (dict_keys r) \<Longrightarrow> app_id a \<in> ids r"
  by (auto simp: dict_keys_def ids_def)

lemma service_subs: "service m r is = Inr (m', r') \<Longrightarrow> subs r' = subs r"
  by (induction "is")
     (auto simp: Let_def split: if_splits list.splits sum.splits option.splits dest: add_to_subs)

lemma mlfq_addProgress_subs: "mlfq_addProgress m r = Inr (m', r') \<Longrightarrow> subs r' = subs r"
  by (auto simp: mlfq_addProgress_def split: sum.splits prod.splits dest: service_subs)

lemma addProgress_subs: "addProgress sch r t = Inr (sch', r') \<Longrightarrow> subs r' = subs r"
  by (cases sch)
     (auto simp: Let_def split: list.splits sum.splits prod.splits
           dest: add_to_subs fold_add_to_subs mlfq_addProgress_subs)

lemma app_ok_rate: "app_ok a \<Longrightarrow> 0 < nominalRate a"
  by (simp add: app_ok_def zero_less_Fract_iff)

lemma lookup_mono:
  "subs r' = subs r \<Longrightarrow> progress_le r r' \<Longrightarrow> dict_get r a = Some (sub, p) \<Longrightarrow>
   \<exists>p'. dict_get r' a = Some (sub, p') \<and> p \<le> p'"
proof (induction r arbitrary: r')
  case Nil
  then show ?case by simp
next
  case (Cons e r)
  then obtain e' r1 where r': "r' = e' # r1" by (cases r') (auto simp: subs_def)
  with Cons.prems have h: "fst e' = fst e" "fst (snd e') = fst (snd e)" "subs r1 = subs r"
      "snd (snd e) \<le> snd (snd e')" "progress_le r r1"
    by (auto simp: subs_def progress_le_def)
  show ?case
  proof (cases "app_eq (fst e) a")
    case True
    with Cons.prems(3) r' h show ?thesis
      by (cases e; cases e') auto
  next
    case False
    with Cons.prems(3) have "dict_get r a = Some (sub, p)" by (cases e) auto
    from Cons.IH[OF h(3) h(5) this] False r' h(1) show ?thesis by (cases e; cases e') auto
  qed
qed

text \<open>A call never lowers a progress value.\<close>

lemma select_progress:
  assumes "add_to r a (nominalRate a * c) = Inr r'" "a \<in> set (dict_keys r)"
    "list_all app_ok (dict_keys r)" "0 \<le> c"
  shows "progress_le r r'"
proof -
  have "0 < nominalRate a" using assms(2,3) by (auto simp: list_all_iff intro: app_ok_rate)
  then have "0 \<le> nominalRate a * c" using assms(4) by simp
  with assms(1) show ?thesis by (rule add_to_progress)
qed

lemma min_by_key: "fst (min_by f e es) \<in> set (dict_keys (e # es))"
  using min_by_in[of f e es] by (auto simp: dict_keys_def)

lemma service_progress:
  assumes "service m r is = Inr (m', r')" "list_all (\<lambda>ts. 0 \<le> ts) (time_slices m)"
    "list_all (list_all app_ok) (queues m)"
  shows "progress_le r r'"
  using assms
proof (induction "is")
  case Nil
  then show ?case by simp
next
  case (Cons i "is")
  show ?case
  proof (cases "queues m ! i")
    case Nil
    with Cons show ?thesis by (auto split: if_splits)
  next
    case (Cons a q)
    from Cons.prems(1) have i: "i < length (queues m)" by (auto split: if_splits)
    with Cons Cons.prems(3) have "app_ok a"
      by (metis list_all_iff list.set_intros(1) nth_mem)
    then have rate: "0 < nominalRate a" by (rule app_ok_rate)
    show ?thesis
    proof (cases "dict_in a r")
      case False
      with Cons.prems(1) Cons i show ?thesis by (auto simp: Let_def)
    next
      case True
      with Cons.prems(1) Cons i have ts: "i < length (time_slices m)"
        by (auto simp: Let_def split: if_splits)
      with Cons.prems(2) have "0 \<le> time_slices m ! i" by (simp add: list_all_length)
      with rate have inc: "0 \<le> nominalRate a * (time_slices m ! i)" by simp
      from Cons.prems(1) Cons i True ts
      obtain r1 where "add_to r a (nominalRate a * (time_slices m ! i)) = Inr r1" "r' = r1"
        by (auto simp: Let_def split: sum.splits option.splits if_splits)
      with inc show ?thesis by (auto intro: add_to_progress)
    qed
  qed
qed


lemma set_remove_app: "set (remove_app a q) \<subseteq> set q"
  unfolding remove_app_def
  by (auto dest: set_takeWhileD in_set_dropD set_dropWhileD)

lemma queues_ok_update:
  "list_all (list_all app_ok) qs \<Longrightarrow> list_all app_ok q \<Longrightarrow> list_all (list_all app_ok) (qs[j := q])"
  by (auto simp: list_all_iff dest!: subsetD[OF set_update_subset_insert])

lemma purge_step_ok:
  "purge_step r a (qs, aq) = Inr (qs', aq') \<Longrightarrow> list_all (list_all app_ok) qs \<Longrightarrow>
   list_all (list_all app_ok) qs'"
proof -
  assume ok: "list_all (list_all app_ok) qs" and st: "purge_step r a (qs, aq) = Inr (qs', aq')"
  have rm: "\<And>j. j < length qs \<Longrightarrow> list_all app_ok (remove_app a (qs ! j))"
    using ok set_remove_app[of a] by (fastforce simp: list_all_iff)
  from st ok show ?thesis
    by (auto simp: purge_step_def queues_ok_update rm split: if_splits option.splits)
qed

lemma fold_purge_ok:
  "fold_err (purge_step r) ks st = Inr st' \<Longrightarrow> list_all (list_all app_ok) (fst st) \<Longrightarrow>
   list_all (list_all app_ok) (fst st')"
proof (induction ks arbitrary: st)
  case Nil
  then show ?case by simp
next
  case (Cons k ks)
  from Cons.prems(1) obtain st1 where s1: "purge_step r k st = Inr st1"
    and rest: "fold_err (purge_step r) ks st1 = Inr st'"
    by (auto split: sum.splits)
  have "list_all (list_all app_ok) (fst st1)"
    using purge_step_ok[of r k "fst st" "snd st" "fst st1" "snd st1"] s1 Cons.prems(2) by simp
  from Cons.IH[OF rest this] show ?case .
qed

lemma admit_step_ok:
  "admit_step a (qs, aq) = Inr (qs', aq') \<Longrightarrow> app_ok a \<Longrightarrow> list_all (list_all app_ok) qs \<Longrightarrow>
   list_all (list_all app_ok) qs'"
  by (auto simp: admit_step_def split: if_splits list.splits)

lemma fold_admit_ok:
  "fold_err admit_step ks st = Inr st' \<Longrightarrow> list_all app_ok ks \<Longrightarrow>
   list_all (list_all app_ok) (fst st) \<Longrightarrow> list_all (list_all app_ok) (fst st')"
proof (induction ks arbitrary: st)
  case Nil
  then show ?case by simp
next
  case (Cons k ks)
  from Cons.prems(1) obtain st1 where s1: "admit_step k st = Inr st1"
    and rest: "fold_err admit_step ks st1 = Inr st'"
    by (auto split: sum.splits)
  have "list_all (list_all app_ok) (fst st1)"
    using admit_step_ok[of k "fst st" "snd st" "fst st1" "snd st1"] s1 Cons.prems(2,3) by simp
  from Cons.IH[OF rest _ this] Cons.prems(2) show ?case by simp
qed

lemma mlfq_addProgress_progress:
  assumes "mlfq_addProgress m r = Inr (m', r')" "list_all app_ok (dict_keys r)"
    "list_all (\<lambda>ts. 0 \<le> ts) (time_slices m)" "list_all (list_all app_ok) (queues m)"
  shows "progress_le r r'"
proof -
  from assms(1) obtain st1 qs aq where
    p: "fold_err (purge_step r) (dict_keys (app_queue m)) (queues m, app_queue m) = Inr st1" and
    a: "fold_err admit_step (dict_keys r) st1 = Inr (qs, aq)" and
    s: "service (m\<lparr>queues := qs, app_queue := aq\<rparr>) r [0 ..< nat (num_queues m)] = Inr (m', r')"
    by (auto simp: mlfq_addProgress_def split: sum.splits prod.splits)
  have "list_all (list_all app_ok) (fst st1)" using fold_purge_ok[OF p] assms(4) by simp
  then have "list_all (list_all app_ok) qs" using fold_admit_ok[OF a assms(2)] by simp
  with service_progress[OF s] assms(3) show ?thesis by simp
qed

lemma min_select_progress:
  assumes "(case r of [] \<Rightarrow> Inr (s0, r)
            | e # es \<Rightarrow>
                let a = fst (min_by f e es) in
                (case add_to r a (nominalRate a) of
                   Inl err \<Rightarrow> Inl err | Inr r' \<Rightarrow> Inr (s0, r'))) = Inr (sch', r')"
    and "list_all app_ok (dict_keys r)"
  shows "progress_le r r'"
proof (cases r)
  case Nil
  with assms(1) show ?thesis by simp
next
  case (Cons e es)
  let ?a = "fst (min_by f e es)"
  from assms(1) Cons have "add_to r ?a (nominalRate ?a * 1) = Inr r'"
    by (simp add: Let_def split: sum.splits)
  moreover have "?a \<in> set (dict_keys r)" unfolding Cons by (rule min_by_key)
  ultimately show ?thesis using assms(2) by (rule select_progress) simp
qed

lemma all_select_progress:
  assumes "(case r of [] \<Rightarrow> Inr (s0, r)
            | e # es \<Rightarrow>
                (case fold_err (\<lambda>a r. add_to r a (g a)) (dict_keys r) r of
                   Inl err \<Rightarrow> Inl err | Inr r' \<Rightarrow> Inr (s0, r'))) = Inr (sch', r')"
    and "\<forall>a\<in>set (dict_keys r). 0 \<le> g a"
  shows "progress_le r r'"
proof (cases r)
  case Nil
  with assms(1) show ?thesis by simp
next
  case (Cons e es)
  from assms(1) Cons have "fold_err (\<lambda>a r. add_to r a (g a)) (dict_keys r) r = Inr r'"
    by (simp split: sum.splits)
  then show ?thesis using assms(2) by (rule fold_add_to_progress)
qed

lemma round_robin_index:
  "r \<noteq> [] \<Longrightarrow> dict_keys r ! nat ((li + 1) mod int (length r)) \<in> set (dict_keys r)"
proof -
  assume "r \<noteq> []"
  then have "0 \<le> (li + 1) mod int (length r)" "(li + 1) mod int (length r) < int (length r)"
    by simp_all
  then have "nat ((li + 1) mod int (length r)) < length (dict_keys r)"
    by (simp add: dict_keys_def)
  then show ?thesis by (rule nth_mem)
qed

lemma max_by_err_in: "max_by_err f bk xs = Inr m \<Longrightarrow> m \<in> set (fst bk # xs)"
proof (induction xs arbitrary: bk)
  case Nil
  then show ?case by (cases bk) simp
next
  case (Cons x xs)
  then show ?case by (cases bk) (fastforce split: option.splits if_splits)
qed

lemma py_max_err_in: "py_max_err f x xs = Inr m \<Longrightarrow> m \<in> set (x # xs)"
  by (auto simp: py_max_err_def split: option.splits dest: max_by_err_in)

lemma addProgress_Fair_nonempty:
  "r \<noteq> [] \<Longrightarrow> addProgress Fair r t =
     (case fold_err (\<lambda>a ru. add_to ru a (nominalRate a / of_nat (length r))) (dict_keys r) r of
        Inl err \<Rightarrow> Inl err | Inr r' \<Rightarrow> Inr (Fair, r'))"
  by (cases r) (simp_all add: Let_def)

lemma addProgress_progress:
  assumes "addProgress sch r t = Inr (sch', r')" "policy_ok sch r"
  shows "progress_le r r'"
proof -
  have keys: "list_all app_ok (dict_keys r)" using assms(2) by (simp add: policy_ok_def)
  have rate: "\<And>a. a \<in> set (dict_keys r) \<Longrightarrow> 0 \<le> nominalRate a"
    using keys by (auto simp: list_all_iff dest: app_ok_rate less_imp_le)
  show ?thesis
  proof (cases sch)
    case Scheduler
    with assms show ?thesis by simp
  next
    case FIFO
    with assms(1) keys show ?thesis
      by (auto intro: min_select_progress[where f = "\<lambda>e. fst (snd e)"])
  next
    case Fair
    show ?thesis
    proof (cases "r = []")
      case True
      with assms(1) Fair show ?thesis by simp
    next
      case False
      from assms(1)[unfolded Fair addProgress_Fair_nonempty[OF False]]
      have "fold_err (\<lambda>a ru. add_to ru a (nominalRate a / of_nat (length r))) (dict_keys r) r = Inr r'"
        by (simp split: sum.splits)
      moreover have "\<forall>a\<in>set (dict_keys r). 0 \<le> nominalRate a / of_nat (length r)"
        using rate by simp
      ultimately show ?thesis
        by (rule fold_add_to_progress[where g = "\<lambda>a. nominalRate a / of_nat (length r)"])
    qed
  next
    case EDFAll
    with assms(1) rate show ?thesis
      by (auto intro: all_select_progress[where g = nominalRate])
  next
    case EDFPure
    with assms(1) keys show ?thesis
      by (auto intro: min_select_progress[where f = "\<lambda>e. deadline (fst e)"])
  next
    case (RoundRobin ts li)
    show ?thesis
    proof (cases r)
      case Nil
      with assms(1) RoundRobin show ?thesis by simp
    next
      case (Cons e es)
      let ?a = "dict_keys r ! nat ((li + 1) mod int (length r))"
      have "?a \<in> set (dict_keys r)" using Cons by (intro round_robin_index) simp
      moreover have "0 \<le> ts" using assms(2) RoundRobin by (simp add: policy_ok_def)
      moreover have "add_to r ?a (nominalRate ?a * ts) = Inr r'"
        using assms(1) RoundRobin Cons by (simp add: Let_def split: sum.splits)
      ultimately show ?thesis using keys by (blast intro: select_progress)
    qed
  next
    case ShortestJobNext
    with assms(1) keys show ?thesis
      by (auto intro: min_select_progress[where f = "\<lambda>e. duration (fst e)"])
  next
    case LeastLaxityFirst
    with assms(1) keys show ?thesis
      by (auto intro: min_select_progress[where f = "laxity t"])
  next
    case (PriorityScheduler pr)
    show ?thesis
    proof (cases r)
      case Nil
      with assms(1) PriorityScheduler show ?thesis by simp
    next
      case (Cons e es)
      from assms(1) PriorityScheduler Cons obtain a where
        a: "py_max_err (dict_get pr) (fst e) (dict_keys es) = Inr a" and
        r': "add_to r a (nominalRate a * 1) = Inr r'"
        by (auto split: sum.splits)
      have "a \<in> set (dict_keys r)" using py_max_err_in[OF a] Cons by (simp add: dict_keys_def)
      with r' show ?thesis using keys by (rule select_progress) simp
    qed
  next
    case (MLFQ m)
    with assms show ?thesis
      by (cases r) (auto simp: policy_ok_def split: sum.splits prod.splits
            intro: mlfq_addProgress_progress)
  qed
qed

section \<open>The priority policy\<close>

lemma max_by_err_missing:
  "\<exists>x\<in>set xs. f x = None \<Longrightarrow> max_by_err f bk xs = Inl KeyError"
proof (induction xs arbitrary: bk)
  case Nil
  then show ?case by simp
next
  case (Cons x xs)
  then show ?case by (cases bk) (auto split: option.splits)
qed

lemma py_max_err_missing:
  "\<exists>y\<in>set (x # xs). f y = None \<Longrightarrow> py_max_err f x xs = Inl KeyError"
proof (cases "f x")
  case None
  then show ?thesis by (simp add: py_max_err_def)
next
  case (Some k)
  assume "\<exists>y\<in>set (x # xs). f y = None"
  with Some have "\<exists>y\<in>set xs. f y = None" by auto
  then have "max_by_err f (x, k) xs = Inl KeyError" by (rule max_by_err_missing)
  with Some show ?thesis by (simp add: py_max_err_def)
qed

lemma max_by_err_max:
  "max_by_err f (b, kb) xs = Inr m \<Longrightarrow> f b = Some kb \<Longrightarrow>
   \<exists>km. f m = Some km \<and> kb \<le> km \<and> (\<forall>x\<in>set xs. \<forall>k. f x = Some k \<longrightarrow> k \<le> km)"
proof (induction xs arbitrary: b kb)
  case Nil
  then show ?case by simp
next
  case (Cons x xs)
  from Cons.prems(1) obtain kx where kx: "f x = Some kx" by (auto split: option.splits)
  show ?case
  proof (cases "kx > kb")
    case True
    with Cons.prems(1) kx have "max_by_err f (x, kx) xs = Inr m" by simp
    from Cons.IH[OF this kx] True kx show ?thesis by force
  next
    case False
    with Cons.prems(1) kx have "max_by_err f (b, kb) xs = Inr m" by simp
    from Cons.IH[OF this Cons.prems(2)] False kx show ?thesis by force
  qed
qed

lemma max_by_err_total:
  "list_all (\<lambda>x. f x \<noteq> None) xs \<Longrightarrow> \<exists>m. max_by_err f bk xs = Inr m"
proof (induction xs arbitrary: bk)
  case Nil
  then show ?case by (cases bk) simp
next
  case (Cons x xs)
  then show ?case by (cases bk) (auto split: option.splits)
qed

lemma py_max_err_max:
  "py_max_err f x xs = Inr m \<Longrightarrow>
   \<exists>km. f m = Some km \<and> (\<forall>y\<in>set (x # xs). \<forall>k. f y = Some k \<longrightarrow> k \<le> km)"
proof -
  assume a: "py_max_err f x xs = Inr m"
  then obtain k where k: "f x = Some k" and m: "max_by_err f (x, k) xs = Inr m"
    by (auto simp: py_max_err_def split: option.splits)
  from max_by_err_max[OF m k] k show ?thesis by auto
qed

lemma py_max_err_total:
  "list_all (\<lambda>y. f y \<noteq> None) (x # xs) \<Longrightarrow> \<exists>m. py_max_err f x xs = Inr m"
  using max_by_err_total[of f xs] by (auto simp: py_max_err_def split: option.splits)

lemma key_lookup: "a \<in> set (dict_keys r) \<Longrightarrow> \<exists>v. dict_get r a = Some v"
  using key_in_ids[of a r] dict_get_None_iff[of r a] by auto

text \<open>
  C8. On a non-empty \<^verbatim>\<open>running\<close>, \<^verbatim>\<open>PriorityScheduler.addProgress\<close> raises
  \<^verbatim>\<open>KeyError\<close> as soon as one running job has no entry in the priority table; when
  every running job has one, a running job whose priority is the greatest gets its
  progress raised by its full nominal rate, and nothing else changes.
\<close>

theorem priority_scheduler_lookup:
  assumes "r \<noteq> []"
  shows "(\<not> list_all (\<lambda>a. dict_in a pr) (dict_keys r) \<longrightarrow>
            addProgress (PriorityScheduler pr) r t = Inl KeyError) \<and>
         (list_all (\<lambda>a. dict_in a pr) (dict_keys r) \<longrightarrow>
            (\<exists>a v sub p. a \<in> set (dict_keys r) \<and> dict_get pr a = Some v \<and>
               (\<forall>b\<in>set (dict_keys r). \<forall>w. dict_get pr b = Some w \<longrightarrow> w \<le> v) \<and>
               dict_get r a = Some (sub, p) \<and>
               addProgress (PriorityScheduler pr) r t =
                 Inr (PriorityScheduler pr, dict_set r a (sub, p + nominalRate a))))"
proof -
  from assms obtain e es where r: "r = e # es" by (cases r) auto
  have keys: "dict_keys r = fst e # dict_keys es" by (simp add: r dict_keys_def)
  have missing: "addProgress (PriorityScheduler pr) r t = Inl KeyError"
    if "\<not> list_all (\<lambda>a. dict_in a pr) (dict_keys r)"
  proof -
    from that have "\<exists>y\<in>set (fst e # dict_keys es). dict_get pr y = None"
      by (auto simp: keys list_all_iff dict_in_def)
    then have "py_max_err (dict_get pr) (fst e) (dict_keys es) = Inl KeyError"
      by (rule py_max_err_missing)
    then show ?thesis by (simp add: r)
  qed
  have found: "\<exists>a v sub p. a \<in> set (dict_keys r) \<and> dict_get pr a = Some v \<and>
               (\<forall>b\<in>set (dict_keys r). \<forall>w. dict_get pr b = Some w \<longrightarrow> w \<le> v) \<and>
               dict_get r a = Some (sub, p) \<and>
               addProgress (PriorityScheduler pr) r t =
                 Inr (PriorityScheduler pr, dict_set r a (sub, p + nominalRate a))"
    if "list_all (\<lambda>a. dict_in a pr) (dict_keys r)"
  proof -
    from that have "list_all (\<lambda>y. dict_get pr y \<noteq> None) (fst e # dict_keys es)"
      by (simp add: keys dict_in_def)
    from py_max_err_total[OF this] obtain a where
      a: "py_max_err (dict_get pr) (fst e) (dict_keys es) = Inr a" by auto
    from py_max_err_in[OF a] have in_keys: "a \<in> set (dict_keys r)" by (simp add: keys)
    from py_max_err_max[OF a] obtain v where v: "dict_get pr a = Some v"
      and mx: "\<forall>b\<in>set (dict_keys r). \<forall>w. dict_get pr b = Some w \<longrightarrow> w \<le> v"
      by (auto simp: keys)
    from key_lookup[OF in_keys] obtain sub p where g: "dict_get r a = Some (sub, p)" by auto
    have "addProgress (PriorityScheduler pr) r t =
            Inr (PriorityScheduler pr, dict_set r a (sub, p + nominalRate a))"
      using a g by (simp add: r add_to_def)
    with in_keys v mx g show ?thesis by blast
  qed
  from missing found show ?thesis by blast
qed

theorem priority_scheduler_lookup_witness:
  "addProgress (PriorityScheduler [(unit1, 1)]) two_running 0 = Inl KeyError \<and>
   addProgress (PriorityScheduler [(unit1, 1), (unit2, 2)]) two_running 0 =
     Inr (PriorityScheduler [(unit1, 1), (unit2, 2)], [(unit1, (0, 0)), (unit2, (0, 1))])"
proof -
  have ne: "two_running \<noteq> []" by (simp add: two_running_def)
  have miss: "\<not> list_all (\<lambda>a. dict_in a [(unit1, 1::int)]) (dict_keys two_running)"
    by (simp add: two_running_def dict_keys_def dict_in_def unit1_def unit2_def app_eq_def)
  from priority_scheduler_lookup[OF ne, of "[(unit1, 1)]" 0] miss
  have "addProgress (PriorityScheduler [(unit1, 1)]) two_running 0 = Inl KeyError" by blast
  moreover have "addProgress (PriorityScheduler [(unit1, 1), (unit2, 2)]) two_running 0 =
     Inr (PriorityScheduler [(unit1, 1), (unit2, 2)], [(unit1, (0, 0)), (unit2, (0, 1))])"
    by (simp add: two_running_def dict_keys_def unit1_def unit2_def app_eq_def py_max_err_def
        add_to_def)
  ultimately show ?thesis by simp
qed

section \<open>Policies: progress never decreases\<close>

lemma addProgress_empty: "sch \<noteq> Scheduler \<Longrightarrow> addProgress sch [] t = Inr (sch, [])"
  by (cases sch) simp_all

lemma select_returns:
  "a \<in> set (dict_keys r) \<Longrightarrow> \<exists>r'. add_to r a inc = Inr r'"
  by (intro add_to_total key_in_ids)

lemma all_returns:
  "\<exists>r'. fold_err (\<lambda>a ru. add_to ru a (g a)) (dict_keys r) r = Inr r'"
  by (intro fold_add_to_total ballI key_in_ids)

lemma addProgress_returns:
  assumes "sch \<noteq> Scheduler" "\<not> is_MLFQ sch"
    "\<forall>pr. sch = PriorityScheduler pr \<longrightarrow> list_all (\<lambda>a. dict_in a pr) (dict_keys r)"
  shows "\<exists>sch' r'. addProgress sch r t = Inr (sch', r')"
proof (cases r)
  case Nil
  with assms(1) show ?thesis by (simp add: addProgress_empty)
next
  case (Cons e es)
  have mn: "\<And>f. \<exists>r'. add_to r (fst (min_by f e es)) (nominalRate (fst (min_by f e es))) = Inr r'"
    using min_by_key[of _ e es] by (intro select_returns) (simp add: Cons)
  show ?thesis
  proof (cases sch)
    case Scheduler
    with assms show ?thesis by simp
  next
    case FIFO
    with mn[of "\<lambda>e. fst (snd e)"] Cons show ?thesis by (auto simp: Let_def)
  next
    case Fair
    with all_returns[of "\<lambda>a. nominalRate a / of_nat (length r)" r] Cons show ?thesis
      by (auto simp: Let_def)
  next
    case EDFAll
    with all_returns[of nominalRate r] Cons show ?thesis by auto
  next
    case EDFPure
    with mn[of "\<lambda>e. deadline (fst e)"] Cons show ?thesis by (auto simp: Let_def)
  next
    case (RoundRobin ts li)
    have "\<exists>r'. add_to r (dict_keys r ! nat ((li + 1) mod int (length r)))
             (nominalRate (dict_keys r ! nat ((li + 1) mod int (length r))) * ts) = Inr r'"
      using Cons by (intro select_returns round_robin_index) simp
    with RoundRobin Cons show ?thesis by (auto simp: Let_def)
  next
    case ShortestJobNext
    with mn[of "\<lambda>e. duration (fst e)"] Cons show ?thesis by (auto simp: Let_def)
  next
    case LeastLaxityFirst
    with mn[of "laxity t"] Cons show ?thesis by (auto simp: Let_def)
  next
    case (PriorityScheduler pr)
    from assms(3) PriorityScheduler
    have "list_all (\<lambda>y. dict_get pr y \<noteq> None) (fst e # dict_keys es)"
      by (simp add: Cons dict_keys_def dict_in_def)
    from py_max_err_total[OF this] obtain a where
      a: "py_max_err (dict_get pr) (fst e) (dict_keys es) = Inr a" by auto
    from py_max_err_in[OF a] have "a \<in> set (dict_keys r)" by (simp add: Cons dict_keys_def)
    from select_returns[OF this, of "nominalRate a"] obtain r1 where
      "add_to r a (nominalRate a) = Inr r1" by blast
    with a PriorityScheduler Cons show ?thesis by auto
  next
    case (MLFQ m)
    with assms show ?thesis by (simp add: is_MLFQ_def)
  qed
qed

section \<open>One tick\<close>

lemma ids_dict_set: "ids (dict_set d a v) = insert (app_id a) (ids d)"
proof (induction d)
  case Nil
  show ?case by simp
next
  case (Cons e d)
  obtain k w where e: "e = (k, w)" by (cases e)
  show ?case
  proof (cases "app_eq k a")
    case True
    then show ?thesis by (simp add: e app_eq_def insert_absorb)
  next
    case False
    then show ?thesis by (simp add: e Cons.IH insert_commute)
  qed
qed

lemma ids_filter_subset: "ids (filter P d) \<subseteq> ids d"
  by (auto simp: ids_def)

lemma fold_finished_ids:
  "ids (fold (\<lambda>e en. if 1 \<le> snd (snd e) then dict_set en (fst e) (fst (snd e), time) else en) r en0)
     = ids en0 \<union> ids (filter finished r)"
proof (induction r arbitrary: en0)
  case Nil
  show ?case by simp
next
  case (Cons e r)
  show ?case
  proof (cases "finished e")
    case True
    then show ?thesis by (simp add: Cons.IH finished_def ids_dict_set)
  next
    case False
    then show ?thesis by (simp add: Cons.IH finished_def)
  qed
qed

lemma fold_finished_append:
  "dict_ok r \<Longrightarrow> ids r \<inter> ids en0 = {} \<Longrightarrow>
   fold (\<lambda>e en. if 1 \<le> snd (snd e) then dict_set en (fst e) (fst (snd e), time) else en) r en0
     = en0 @ map (end_at time) (filter finished r)"
proof (induction r arbitrary: en0)
  case Nil
  then show ?case by simp
next
  case (Cons e r)
  have ok: "dict_ok r" and fresh: "app_id (fst e) \<notin> ids r"
    using Cons.prems(1) by (auto simp: dict_ok_def ids_def)
  show ?case
  proof (cases "finished e")
    case True
    have new: "dict_set en0 (fst e) (fst (snd e), time) = en0 @ [end_at time e]"
      using Cons.prems(2) by (simp add: dict_set_new dict_in_iff end_at_def)
    have "ids r \<inter> ids (en0 @ [end_at time e]) = {}"
      using Cons.prems(2) fresh by (auto simp: end_at_def)
    from Cons.IH[OF ok this] True new show ?thesis by (simp add: finished_def)
  next
    case False
    have "ids r \<inter> ids en0 = {}" using Cons.prems(2) by auto
    from Cons.IH[OF ok this] False show ?thesis by (simp add: finished_def)
  qed
qed

lemma dict_del_absent: "\<not> dict_in a d \<Longrightarrow> dict_del d a = d"
  by (force simp: dict_del_def dict_in_iff ids_def app_eq_def intro!: filter_True)

lemma fold_del_filter:
  "fold (\<lambda>a ru. if dict_in a ru then dict_del ru a else ru) ks r
     = filter (\<lambda>e. app_id (fst e) \<notin> app_id ` set ks) r"
proof (induction ks arbitrary: r)
  case Nil
  then show ?case by simp
next
  case (Cons k ks)
  have "(if dict_in k r then dict_del r k else r) = dict_del r k"
    by (simp add: dict_del_absent)
  then have "fold (\<lambda>a ru. if dict_in a ru then dict_del ru a else ru) (k # ks) r
      = filter (\<lambda>e. app_id (fst e) \<notin> app_id ` set ks) (dict_del r k)"
    by (simp add: Cons.IH)
  also have "\<dots> = filter (\<lambda>e. app_id (fst e) \<notin> app_id ` set (k # ks)) r"
    by (auto simp: dict_del_def app_eq_def intro: filter_cong)
  finally show ?case .
qed

lemma keys_ids: "app_id ` set (dict_keys d) = ids d"
  by (auto simp: dict_keys_def ids_def)

lemma tick_unfold:
  "tick sch s time =
     (if running s = [] then Inr (sch, s)
      else case addProgress sch (running s) time of
        Inl err \<Rightarrow> Inl err
      | Inr (sch', r) \<Rightarrow>
          Inr (sch', \<lparr>running = filter (\<lambda>e. app_id (fst e) \<notin> ids (ended s) \<union> ids (filter finished r)) r,
                     ended = fold (\<lambda>e en. if 1 \<le> snd (snd e)
                                     then dict_set en (fst e) (fst (snd e), time) else en)
                            r (ended s)\<rparr>))"
proof (cases "running s = []")
  case True
  then show ?thesis by (simp add: tick_def)
next
  case False
  show ?thesis
  proof (cases "addProgress sch (running s) time")
    case (Inl err)
    with False show ?thesis by (simp add: tick_def)
  next
    case (Inr res)
    obtain sch' r where res: "res = (sch', r)" by (cases res)
    show ?thesis
      unfolding tick_def Let_def fold_del_filter keys_ids fold_finished_ids
      using False Inr res by simp
  qed
qed

lemma id_list_subs: "map (\<lambda>e. app_id (fst e)) r = map (\<lambda>x. app_id (fst x)) (subs r)"
  by (simp add: subs_def comp_def)

lemma dict_ok_subs: "subs r' = subs r \<Longrightarrow> dict_ok r' = dict_ok r"
  by (simp add: dict_ok_def id_list_subs)

lemma ids_subs_eq: "subs r' = subs r \<Longrightarrow> ids r' = ids r"
  by (simp add: ids_subs)

lemma dict_ok_filter: "dict_ok d \<Longrightarrow> dict_ok (filter P d)"
  by (simp add: dict_ok_def distinct_map_filter)

lemma dict_ok_unique:
  "dict_ok d \<Longrightarrow> e \<in> set d \<Longrightarrow> e' \<in> set d \<Longrightarrow> app_id (fst e) = app_id (fst e') \<Longrightarrow> e = e'"
  unfolding dict_ok_def distinct_map by (auto dest: inj_onD)

lemma running_after_tick:
  assumes "dict_ok r" "ids r \<inter> ids en = {}"
  shows "filter (\<lambda>e. app_id (fst e) \<notin> ids en \<union> ids (filter finished r)) r
           = filter (\<lambda>e. \<not> finished e) r"
proof (rule filter_cong[OF refl])
  fix e assume e: "e \<in> set r"
  then have a: "app_id (fst e) \<notin> ids en" using assms(2) by (auto simp: ids_def)
  have "app_id (fst e) \<in> ids (filter finished r) \<longleftrightarrow> finished e"
  proof
    assume "app_id (fst e) \<in> ids (filter finished r)"
    then obtain e' where "e' \<in> set r" "finished e'" "app_id (fst e) = app_id (fst e')"
      by (auto simp: ids_def)
    with dict_ok_unique[OF assms(1) e] show "finished e" by blast
  next
    assume "finished e"
    with e show "app_id (fst e) \<in> ids (filter finished r)" by (auto simp: ids_def)
  qed
  with a show "(app_id (fst e) \<notin> ids en \<union> ids (filter finished r)) = (\<not> finished e)" by simp
qed

lemma disjoint_iff_list_all:
  "list_all (\<lambda>a. \<not> dict_in a en) (dict_keys r) \<longleftrightarrow> ids r \<inter> ids en = {}"
  by (auto simp: list_all_iff dict_in_iff dict_keys_def ids_def)

lemma ids_map_end_at: "ids (map (end_at t) d) = ids d"
  by (force simp: ids_def end_at_def image_iff)

lemma dict_ok_append:
  "dict_ok (d @ d') \<longleftrightarrow> dict_ok d \<and> dict_ok d' \<and> ids d \<inter> ids d' = {}"
  by (simp add: dict_ok_def ids_def)

lemma dict_ok_map_end_at: "dict_ok (map (end_at t) d) = dict_ok d"
  by (simp add: dict_ok_def end_at_def comp_def)

lemma after_tick_ok:
  assumes "timeline_ok s" "subs r = subs (running s)"
  shows "timeline_ok (after_tick s r t)"
proof -
  have ok: "dict_ok r"
    using assms(1) dict_ok_subs[OF assms(2)] by (simp add: timeline_ok_def)
  have dj: "ids r \<inter> ids (ended s) = {}"
    using assms(1) ids_subs_eq[OF assms(2)] by (simp add: timeline_ok_def disjoint_iff_list_all)
  have f: "ids (filter finished r) \<subseteq> ids r" by (rule ids_filter_subset)
  have 1: "dict_ok (filter (\<lambda>e. \<not> finished e) r)" using ok by (rule dict_ok_filter)
  have "ids (ended s) \<inter> ids (filter finished r) = {}" using dj f by blast
  moreover have "dict_ok (ended s)" using assms(1) by (simp add: timeline_ok_def)
  moreover have "dict_ok (filter finished r)" using ok by (rule dict_ok_filter)
  ultimately have 2: "dict_ok (ended s @ map (end_at t) (filter finished r))"
    by (simp add: dict_ok_append dict_ok_map_end_at ids_map_end_at)
  have "ids (filter (\<lambda>e. \<not> finished e) r) \<inter> ids (filter finished r) = {}"
  proof (rule ccontr)
    assume "ids (filter (\<lambda>e. \<not> finished e) r) \<inter> ids (filter finished r) \<noteq> {}"
    then obtain e e' where "e \<in> set r" "\<not> finished e" "e' \<in> set r" "finished e'"
      "app_id (fst e) = app_id (fst e')" by (auto simp: ids_def)
    with dict_ok_unique[OF ok] show False by blast
  qed
  moreover have "ids (filter (\<lambda>e. \<not> finished e) r) \<inter> ids (ended s) = {}"
    using dj ids_filter_subset[of "\<lambda>e. \<not> finished e" r] by auto
  ultimately have 3: "ids (filter (\<lambda>e. \<not> finished e) r)
      \<inter> ids (ended s @ map (end_at t) (filter finished r)) = {}"
    by (simp add: ids_map_end_at Int_Un_distrib)
  from 1 2 3 show ?thesis
    by (simp add: timeline_ok_def after_tick_def disjoint_iff_list_all)
qed

lemma tick_ok_unfold:
  assumes "timeline_ok s" "addProgress sch (running s) t = Inr (sch', r)" "running s \<noteq> []"
  shows "tick sch s t = Inr (sch', after_tick s r t)"
proof -
  have sb: "subs r = subs (running s)" using assms(2) by (rule addProgress_subs)
  have ok: "dict_ok r"
    using assms(1) dict_ok_subs[OF sb] by (simp add: timeline_ok_def)
  have dj: "ids r \<inter> ids (ended s) = {}"
    using assms(1) ids_subs_eq[OF sb] by (simp add: timeline_ok_def disjoint_iff_list_all)
  show ?thesis
    unfolding tick_unfold after_tick_def
    using assms(2,3)
    by (simp add: running_after_tick[OF ok dj, simplified] fold_finished_append[OF ok dj])
qed

text \<open>
  C4. On a timeline state, \<^verbatim>\<open>tick(t)\<close> returns the state itself when nothing is
  running. Otherwise it calls the policy's \<^verbatim>\<open>addProgress\<close> once, on a copy of
  \<^verbatim>\<open>running\<close> (an exception of the policy is the exception of \<^verbatim>\<open>tick\<close>); the
  policy leaves keys and submission times as they were; every entry whose progress is
  at least 1 is removed from \<^verbatim>\<open>running\<close> and added to \<^verbatim>\<open>ended\<close> with
  \<open>(submissionTime, t)\<close>; every other entry of \<^verbatim>\<open>running\<close> and every earlier entry
  of \<^verbatim>\<open>ended\<close> stays as it is. The result is a new value, again a timeline state;
  the receiver is not changed (the model's \<open>s\<close> is a value).
\<close>

theorem tick_spec:
  assumes "timeline_ok s"
  shows "(running s = [] \<longrightarrow> tick sch s t = Inr (sch, s)) \<and>
         (running s \<noteq> [] \<longrightarrow>
            (\<forall>err. addProgress sch (running s) t = Inl err \<longrightarrow> tick sch s t = Inl err) \<and>
            (\<forall>sch' r. addProgress sch (running s) t = Inr (sch', r) \<longrightarrow>
               subs r = subs (running s) \<and>
               tick sch s t =
                 Inr (sch', \<lparr>running = filter (\<lambda>e. \<not> finished e) r,
                            ended = ended s @ map (end_at t) (filter finished r)\<rparr>) \<and>
               timeline_ok (after_tick s r t)))"
proof -
  have "tick sch s t = Inr (sch, s)" if "running s = []"
    using that by (simp add: tick_def)
  moreover have "tick sch s t = Inl err"
    if "running s \<noteq> []" "addProgress sch (running s) t = Inl err" for err
    using that by (simp add: tick_def)
  moreover have "subs r = subs (running s) \<and>
               tick sch s t =
                 Inr (sch', \<lparr>running = filter (\<lambda>e. \<not> finished e) r,
                            ended = ended s @ map (end_at t) (filter finished r)\<rparr>) \<and>
               timeline_ok (after_tick s r t)"
    if ne: "running s \<noteq> []" and run: "addProgress sch (running s) t = Inr (sch', r)" for sch' r
  proof -
    have sb: "subs r = subs (running s)" using run by (rule addProgress_subs)
    from tick_ok_unfold[OF assms run ne] after_tick_ok[OF assms sb] sb
    show ?thesis by (simp add: after_tick_def)
  qed
  ultimately show ?thesis by blast
qed

theorem tick_spec_witness:
  "tick EDFAll mixed_state 1 =
     Inr (EDFAll, \<lparr>running = [(job_a, (0, 1 / 2))], ended = [(unit2, (1, 1))]\<rparr>) \<and>
   tick EDFAll Spark0 1 = Inr (EDFAll, Spark0)"
proof -
  have ok: "timeline_ok mixed_state"
    by (simp add: timeline_ok_def mixed_state_def dict_ok_def dict_keys_def job_a_def unit2_def
        dict_in_def)
  have ok0: "timeline_ok Spark0"
    by (simp add: timeline_ok_def Spark0_def dict_ok_def dict_keys_def)
  have run: "addProgress EDFAll (running mixed_state) 1 =
      Inr (EDFAll, [(job_a, (0, 1 / 2)), (unit2, (1, 1))])"
    by (simp add: mixed_state_def dict_keys_def job_a_def unit2_def app_eq_def add_to_def)
  have ne: "running mixed_state \<noteq> []" by (simp add: mixed_state_def)
  from tick_spec[OF ok, of EDFAll 1] ne run
  have "tick EDFAll mixed_state 1 =
      Inr (EDFAll, \<lparr>running = filter (\<lambda>e. \<not> finished e) [(job_a, (0, 1 / 2)), (unit2, (1, 1))],
                     ended = ended mixed_state @
                       map (end_at 1) (filter finished [(job_a, (0, 1 / 2)), (unit2, (1, 1))])\<rparr>)"
    by blast
  moreover from tick_spec[OF ok0, of EDFAll 1] have "tick EDFAll Spark0 1 = Inr (EDFAll, Spark0)"
    by (simp add: Spark0_def)
  ultimately show ?thesis by (simp add: finished_def end_at_def mixed_state_def)
qed

section \<open>The dependency order\<close>

lemma dep_inv_iff: "dep_inv s \<longleftrightarrow> (\<forall>k. present s k \<and> 1 < k \<longrightarrow> present s (k - 1))"
proof -
  have "dep_inv s \<longleftrightarrow> (\<forall>k\<in>ids (running s) \<union> ids (ended s). k \<le> 1 \<or> present s (k - 1))"
    by (auto simp: dep_inv_def list_all_iff dict_keys_def ids_def)
  also have "\<dots> \<longleftrightarrow> (\<forall>k. present s k \<and> 1 < k \<longrightarrow> present s (k - 1))"
    unfolding present_def by (metis not_less)
  finally show ?thesis .
qed

lemma present_schedule:
  "present (schedule s a t) k \<longleftrightarrow>
     present s k \<or> (k = app_id a \<and> present s (app_id a - 1))"
  by (auto simp: schedule_unfold present_def)

lemma schedule_dep_inv: "dep_inv s \<Longrightarrow> dep_inv (schedule s a t)"
  unfolding dep_inv_iff present_schedule by auto

lemma tick_present:
  assumes "tick sch s t = Inr (sch', s')"
  shows "present s' k = present s k"
proof (cases "running s = []")
  case True
  with assms show ?thesis by (simp add: tick_def)
next
  case False
  with assms obtain r where run: "addProgress sch (running s) t = Inr (sch', r)"
    and s': "s' = \<lparr>running = filter (\<lambda>e. app_id (fst e) \<notin> ids (ended s) \<union> ids (filter finished r)) r,
                  ended = fold (\<lambda>e en. if 1 \<le> snd (snd e)
                                     then dict_set en (fst e) (fst (snd e), t) else en)
                            r (ended s)\<rparr>"
    unfolding tick_unfold by (auto split: sum.splits)
  have ir: "ids r = ids (running s)" using addProgress_subs[OF run] by (rule ids_subs_eq)
  have f: "ids (filter finished r) \<subseteq> ids r" by (rule ids_filter_subset)
  have "ids (filter (\<lambda>e. app_id (fst e) \<notin> ids (ended s) \<union> ids (filter finished r)) r)
          = ids r - (ids (ended s) \<union> ids (filter finished r))"
    by (auto simp: ids_def)
  with f have "ids (running s') \<union> ids (ended s') = ids r \<union> ids (ended s)"
    unfolding s' by (auto simp: fold_finished_ids)
  then show ?thesis by (simp add: present_def ir)
qed

lemma tick_dep_inv: "tick sch s t = Inr (sch', s') \<Longrightarrow> dep_inv s \<Longrightarrow> dep_inv s'"
  unfolding dep_inv_iff by (simp add: tick_present)

section \<open>Invariants of the exploration\<close>

lemma set_add_set: "set (set_add h S x) \<subseteq> insert x (set S)" "set S \<subseteq> set (set_add h S x)"
  by (auto simp: set_add_def)

lemma set_union_subset: "set (set_union h A B) \<subseteq> set A \<union> set B"
  unfolding set_union_def
proof (induction B arbitrary: A)
  case Nil
  show ?case by simp
next
  case (Cons b B)
  have "set (fold (\<lambda>x S. set_add h S x) B (set_add h A b)) \<subseteq> set (set_add h A b) \<union> set B"
    by (rule Cons.IH)
  with set_add_set(1)[of h A b] show ?case by auto
qed

lemma set_union_left: "set A \<subseteq> set (set_union h A B)"
  unfolding set_union_def
proof (induction B arbitrary: A)
  case Nil
  show ?case by simp
next
  case (Cons b B)
  have "set (set_add h A b) \<subseteq> set (fold (\<lambda>x S. set_add h S x) B (set_add h A b))"
    by (rule Cons.IH)
  with set_add_set(2)[of A h b] show ?case by auto
qed

lemma nextStates_inv:
  assumes "\<And>s a. P s \<Longrightarrow> P (schedule s a t)"
  shows "P s \<Longrightarrow> list_all P (nextStates h apps s t)"
proof (induction apps arbitrary: s)
  case Nil
  then show ?case by simp
next
  case (Cons a apps)
  have "list_all P (nextStates h apps (schedule s a t) t)" "list_all P (nextStates h apps s t)"
    using Cons.prems assms by (auto intro: Cons.IH)
  with set_union_subset[of h "nextStates h apps (schedule s a t) t" "nextStates h apps s t"]
  show ?case by (auto simp: list_all_iff)
qed

lemma simulate_states_inv:
  assumes "\<And>s a. P s \<Longrightarrow> P (schedule s a t)"
    and "\<And>sch s sch' s'. tick sch s t = Inr (sch', s') \<Longrightarrow> P s \<Longrightarrow> P s'"
  shows "simulate_states h apps t sch states acc = Inr (sch', S) \<Longrightarrow> list_all P states \<Longrightarrow>
         list_all P acc \<Longrightarrow> list_all P S"
proof (induction states arbitrary: sch acc)
  case Nil
  then show ?case by simp
next
  case (Cons x states)
  from Cons.prems(1) obtain sch1 x1 where tk: "tick sch x t = Inr (sch1, x1)"
    and rest: "simulate_states h apps t sch1 states (set_union h acc (nextStates h apps x1 t))
                 = Inr (sch', S)"
    by (auto split: sum.splits)
  have "P x1" using assms(2)[OF tk] Cons.prems(2) by simp
  then have "list_all P (nextStates h apps x1 t)"
    using nextStates_inv[where P = P and t = t and s = x1 and h = h and apps = apps] assms(1)
    by blast
  with Cons.prems(3) set_union_subset[of h acc "nextStates h apps x1 t"]
  have "list_all P (set_union h acc (nextStates h apps x1 t))" by (auto simp: list_all_iff)
  from Cons.IH[OF rest _ this] Cons.prems(2) show ?case by simp
qed

lemma iter_ok_set: "iter_ok iter \<Longrightarrow> set (iter S) = set S"
  by (metis iter_ok_def set_mset_mset)

lemma simulate_steps_inv:
  assumes "\<And>s a t. P s \<Longrightarrow> P (schedule s a t)"
    and "\<And>sch s t sch' s'. tick sch s t = Inr (sch', s') \<Longrightarrow> P s \<Longrightarrow> P s'"
    and "iter_ok iter"
  shows "simulate_steps h iter apps sch states ts = Inr (sch', S) \<Longrightarrow> list_all P states \<Longrightarrow>
         list_all P S"
proof (induction ts arbitrary: sch states)
  case Nil
  then show ?case by simp
next
  case (Cons t ts)
  from Cons.prems(1) obtain sch1 S1 where
    st: "simulate_states h apps t sch (iter states) [] = Inr (sch1, S1)" and
    rest: "simulate_steps h iter apps sch1 S1 ts = Inr (sch', S)"
    by (auto split: sum.splits)
  have "list_all P (iter states)"
    using Cons.prems(2) iter_ok_set[OF assms(3)] by (simp add: list_all_iff)
  from simulate_states_inv[of P t, OF assms(1) assms(2) st this] have "list_all P S1" by simp
  from Cons.IH[OF rest this] show ?case .
qed

text \<open>
  C6. From a seed that respects the dependency order, every state of the set that
  \<^verbatim>\<open>simulate\<close> returns (for any horizon, so after any number of ticks) respects it: a
  job with an id above 1 is never in a state without its predecessor. The order is kept
  by \<^verbatim>\<open>schedule\<close>, by \<^verbatim>\<open>tick\<close> and by the branching of \<^verbatim>\<open>nextStates\<close>.
\<close>

theorem dependency_order_kept:
  assumes "iter_ok iter" and "dep_inv initial"
  shows "(\<forall>sch' S. simulate h iter sch initial apps steps = Inr (sch', S) \<longrightarrow> list_all dep_inv S) \<and>
         (\<forall>s a t. dep_inv s \<longrightarrow> dep_inv (schedule s a t)) \<and>
         (\<forall>s t sch1 sch2 s'. dep_inv s \<and> tick sch1 s t = Inr (sch2, s') \<longrightarrow> dep_inv s') \<and>
         (\<forall>s t. dep_inv s \<longrightarrow> list_all dep_inv (nextStates h apps s t))"
proof -
  have "list_all dep_inv S" if "simulate h iter sch initial apps steps = Inr (sch', S)" for sch' S
    using that assms(2) unfolding simulate_def
    by (intro simulate_steps_inv[of dep_inv iter h apps sch "[initial]" "[0..steps]" sch' S]
          schedule_dep_inv assms(1)) (auto intro: tick_dep_inv)
  moreover have "list_all dep_inv (nextStates h apps s t)" if "dep_inv s" for s t
    using that by (intro nextStates_inv[of dep_inv] schedule_dep_inv)
  ultimately show ?thesis using schedule_dep_inv tick_dep_inv by blast
qed

lemma seed_u_run:
  "simulate zero_hash insertion_order Fair seed_u [unit1, unit2] 2 =
     Inr (Fair,
       [\<lparr>running = [], ended = [(unit1, (0, 0)), (unit2, (0, 1))]\<rparr>,
        \<lparr>running = [], ended = [(unit1, (0, 0)), (unit2, (1, 2))]\<rparr>,
        \<lparr>running = [(unit2, (2, 0))], ended = [(unit1, (0, 0))]\<rparr>,
        \<lparr>running = [], ended = [(unit1, (0, 0))]\<rparr>])"
  by (simp add: simulate_def seed_u_def unit1_def unit2_def tick_def add_to_def app_eq_def
       dict_in_def dict_keys_def dict_del_def schedule_def set_union_def set_add_def same_elem_def
       spark_hash_def zero_hash_def spark_eq_def dict_eq_def upto_rec1 insertion_order_def)

theorem dependency_order_kept_witness:
  "dep_inv seed_u \<and>
   list_all dep_inv
       [\<lparr>running = [], ended = [(unit1, (0, 0)), (unit2, (0, 1))]\<rparr>,
        \<lparr>running = [], ended = [(unit1, (0, 0)), (unit2, (1, 2))]\<rparr>,
        \<lparr>running = [(unit2, (2, 0))], ended = [(unit1, (0, 0))]\<rparr>,
        \<lparr>running = [], ended = [(unit1, (0, 0))]\<rparr>]"
proof -
  have d: "dep_inv seed_u"
    by (simp add: dep_inv_def seed_u_def dict_keys_def unit1_def)
  from dependency_order_kept[OF iter_ok_insertion_order d, of zero_hash Fair "[unit1, unit2]" 2]
    seed_u_run d
  show ?thesis by blast
qed

section \<open>The terminal set is never empty\<close>

lemma dict_get_cong_id: "app_id a = app_id b \<Longrightarrow> dict_get d a = dict_get d b"
  by (induction d) (auto simp: app_eq_def)

lemma dict_eq_trans:
  assumes "dict_eq a b" "dict_eq b c"
  shows "dict_eq a c"
proof -
  have "dict_get c (fst e) = Some (snd e)" if e: "e \<in> set a" for e
  proof -
    from assms(1) e have "dict_get b (fst e) = Some (snd e)"
      by (simp add: dict_eq_def list_all_iff)
    from dict_get_Some_in[OF this] obtain k where k: "(k, snd e) \<in> set b" "app_id k = app_id (fst e)"
      by blast
    from assms(2) k(1) have "dict_get c k = Some (snd e)"
      by (force simp: dict_eq_def list_all_iff)
    with dict_get_cong_id[OF k(2), of c] show ?thesis by simp
  qed
  with assms show ?thesis by (simp add: dict_eq_def list_all_iff)
qed

lemma spark_eq_trans: "spark_eq x y \<Longrightarrow> spark_eq y z \<Longrightarrow> spark_eq x z"
  by (auto simp: spark_eq_def intro: dict_eq_trans)

lemma same_elem_trans: "same_elem h x y \<Longrightarrow> same_elem h y z \<Longrightarrow> same_elem h x z"
  by (auto simp: same_elem_def intro: spark_eq_trans)

lemma set_member_add: "set_member h (set_add h S x) x"
  by (auto simp: set_member_def set_add_def list_ex_iff)

lemma set_member_mono: "set A \<subseteq> set B \<Longrightarrow> set_member h A x \<Longrightarrow> set_member h B x"
  by (auto simp: set_member_def list_ex_iff)

lemma set_member_trans: "set_member h S y \<Longrightarrow> same_elem h y x \<Longrightarrow> set_member h S x"
  by (auto simp: set_member_def list_ex_iff intro: same_elem_trans)

lemma set_member_union_right: "set_member h B x \<Longrightarrow> set_member h (set_union h A B) x"
proof (induction B arbitrary: A)
  case Nil
  then show ?case by (simp add: set_member_def)
next
  case (Cons b B)
  have step: "set_union h A (b # B) = set_union h (set_add h A b) B"
    by (simp add: set_union_def)
  show ?case
  proof (cases "same_elem h b x")
    case True
    have "set_member h (set_add h A b) x"
      using set_member_add[of h A b] True by (rule set_member_trans)
    then show ?thesis
      unfolding step using set_union_left[of "set_add h A b" h B] by (rule set_member_mono[rotated])
  next
    case False
    with Cons.prems have "set_member h B x" by (simp add: set_member_def)
    then show ?thesis unfolding step by (rule Cons.IH)
  qed
qed

lemma nextStates_member: "set_member h (nextStates h apps s t) s"
proof (induction apps)
  case Nil
  show ?case by (simp add: set_member_def)
next
  case (Cons a apps)
  then show ?case by (simp add: set_member_union_right)
qed

lemma nextStates_nonempty: "nextStates h apps s t \<noteq> []"
  using nextStates_member[of h apps s t] by (auto simp: set_member_def)

lemma set_union_nonempty: "B \<noteq> [] \<Longrightarrow> set_union h A B \<noteq> []"
proof -
  assume "B \<noteq> []"
  then obtain b B' where B: "B = b # B'" by (cases B) auto
  have "set (set_add h A b) \<subseteq> set (set_union h A B)"
    unfolding B using set_union_left[of "set_add h A b" h B'] by (simp add: set_union_def)
  moreover have "set_add h A b \<noteq> []" by (cases A) (simp_all add: set_add_def)
  ultimately show ?thesis by (cases "set_add h A b") auto
qed

lemma simulate_states_nonempty:
  "simulate_states h apps t sch states acc = Inr (sch', S) \<Longrightarrow> states \<noteq> [] \<or> acc \<noteq> [] \<Longrightarrow>
   S \<noteq> []"
proof (induction states arbitrary: sch acc)
  case Nil
  then show ?case by simp
next
  case (Cons x states)
  from Cons.prems(1) obtain sch1 x1 where
    rest: "simulate_states h apps t sch1 states (set_union h acc (nextStates h apps x1 t))
                 = Inr (sch', S)"
    by (auto split: sum.splits)
  have "set_union h acc (nextStates h apps x1 t) \<noteq> []"
    by (intro set_union_nonempty nextStates_nonempty)
  with Cons.IH[OF rest] show ?case by simp
qed

lemma iter_nonempty: "iter_ok iter \<Longrightarrow> S \<noteq> [] \<Longrightarrow> iter S \<noteq> []"
  using iter_ok_set[of iter S] by auto

lemma simulate_steps_nonempty:
  "iter_ok iter \<Longrightarrow> simulate_steps h iter apps sch states ts = Inr (sch', S) \<Longrightarrow>
   states \<noteq> [] \<Longrightarrow> S \<noteq> []"
proof (induction ts arbitrary: sch states)
  case Nil
  then show ?case by simp
next
  case (Cons t ts)
  from Cons.prems(2) obtain sch1 S1 where
    st: "simulate_states h apps t sch (iter states) [] = Inr (sch1, S1)" and
    rest: "simulate_steps h iter apps sch1 S1 ts = Inr (sch', S)"
    by (auto split: sum.splits)
  have "iter states \<noteq> []" using Cons.prems(1,3) by (rule iter_nonempty)
  with simulate_states_nonempty[OF st] have "S1 \<noteq> []" by simp
  from Cons.IH[OF Cons.prems(1) rest this] show ?case .
qed

lemma simulate_nonempty:
  "iter_ok iter \<Longrightarrow> simulate h iter sch initial apps steps = Inr (sch', S) \<Longrightarrow> S \<noteq> []"
  unfolding simulate_def by (erule (1) simulate_steps_nonempty) simp

section \<open>The multilevel queue returns\<close>

lemma remove_app_filter:
  "distinct (map app_id q) \<Longrightarrow> remove_app a q = filter (\<lambda>x. \<not> app_eq x a) q"
proof (induction q)
  case Nil
  show ?case by (simp add: remove_app_def)
next
  case (Cons x q)
  show ?case
  proof (cases "app_eq x a")
    case True
    from Cons.prems have "app_id x \<notin> app_id ` set q" by simp
    with True have "\<forall>y\<in>set q. \<not> app_eq y a" unfolding app_eq_def by (metis imageI)
    then have "filter (\<lambda>x. \<not> app_eq x a) q = q" by (simp add: filter_True)
    with True show ?thesis by (simp add: remove_app_def)
  next
    case False
    with Cons show ?thesis by (simp add: remove_app_def)
  qed
qed

lemma dict_get_dict_del:
  "dict_get (dict_del d a) b = (if app_id b = app_id a then None else dict_get d b)"
  by (induction d) (auto simp: dict_del_def app_eq_def)

lemma dict_get_dict_set:
  "dict_get (dict_set d a v) b = (if app_id b = app_id a then Some v else dict_get d b)"
  by (induction d) (auto simp: app_eq_def)

lemma dict_ok_del: "dict_ok d \<Longrightarrow> dict_ok (dict_del d a)"
  by (simp add: dict_del_def dict_ok_filter)

lemma map_id_dict_set:
  "dict_in a d \<Longrightarrow> map (\<lambda>e. app_id (fst e)) (dict_set d a v) = map (\<lambda>e. app_id (fst e)) d"
  by (induction d) (auto simp: dict_in_def app_eq_def)

lemma dict_ok_set: "dict_ok d \<Longrightarrow> dict_ok (dict_set d a v)"
proof (cases "dict_in a d")
  case True
  assume "dict_ok d"
  then show ?thesis by (simp add: dict_ok_def map_id_dict_set[OF True])
next
  case False
  assume "dict_ok d"
  with False show ?thesis
    by (simp add: dict_set_new dict_ok_append dict_in_iff) (simp add: dict_ok_def)
qed

lemma set_dict_set: "e \<in> set (dict_set d a v) \<Longrightarrow> snd e = v \<or> e \<in> set d"
  by (induction d) (auto split: if_splits)

lemma queued_elsewhere:
  assumes "queues_ok qs aq" "dict_get aq a = Some j" "i < length qs" "x \<in> set (qs ! i)"
    "app_id x = app_id a"
  shows "i = j"
proof -
  from assms(1,3,4) have "dict_get aq x = Some i" by (simp add: queues_ok_def)
  with dict_get_cong_id[OF assms(5), of aq] assms(2) show ?thesis by simp
qed

lemma purge_queues:
  assumes "queues_ok qs aq" "dict_get aq a = Some j" "j < length qs"
  shows "(if list_ex (\<lambda>x. app_eq x a) (qs ! j) then qs[j := remove_app a (qs ! j)] else qs)
           = map (filter (\<lambda>x. \<not> app_eq x a)) qs"
proof -
  have other: "filter (\<lambda>x. \<not> app_eq x a) (qs ! i) = qs ! i" if "i < length qs" "i \<noteq> j" for i
    using queued_elsewhere[OF assms(1,2) that(1)] that(2)
    by (intro filter_True) (auto simp: app_eq_def)
  have dj: "distinct (map app_id (qs ! j))"
    using assms(1,3) by (simp add: queues_ok_def)
  have here: "(if list_ex (\<lambda>x. app_eq x a) (qs ! j) then remove_app a (qs ! j) else qs ! j)
        = filter (\<lambda>x. \<not> app_eq x a) (qs ! j)"
    by (auto simp: remove_app_filter[OF dj] list_ex_iff intro!: filter_True[symmetric])
  show ?thesis
  proof (rule nth_equalityI)
    show "length (if list_ex (\<lambda>x. app_eq x a) (qs ! j) then qs[j := remove_app a (qs ! j)] else qs)
        = length (map (filter (\<lambda>x. \<not> app_eq x a)) qs)" by simp
  next
    fix i
    assume "i < length (if list_ex (\<lambda>x. app_eq x a) (qs ! j)
                        then qs[j := remove_app a (qs ! j)] else qs)"
    then have i: "i < length qs" by (simp split: if_splits)
    show "(if list_ex (\<lambda>x. app_eq x a) (qs ! j) then qs[j := remove_app a (qs ! j)] else qs) ! i
        = map (filter (\<lambda>x. \<not> app_eq x a)) qs ! i"
    proof (cases "i = j")
      case True
      with i here show ?thesis by (simp split: if_splits)
    next
      case False
      with i other[OF i False] show ?thesis by simp
    qed
  qed
qed

lemma queues_ok_purged:
  assumes "queues_ok qs aq"
  shows "queues_ok (map (filter (\<lambda>x. \<not> app_eq x a)) qs) (dict_del aq a)"
proof -
  have 1: "dict_ok (dict_del aq a)" using assms by (simp add: queues_ok_def dict_ok_del)
  have 2: "\<forall>q\<in>set (map (filter (\<lambda>x. \<not> app_eq x a)) qs). distinct (map app_id q)"
    using assms by (auto simp: queues_ok_def distinct_map_filter)
  have 3: "\<forall>i<length (map (filter (\<lambda>x. \<not> app_eq x a)) qs).
             \<forall>b\<in>set (map (filter (\<lambda>x. \<not> app_eq x a)) qs ! i). dict_get (dict_del aq a) b = Some i"
    using assms by (auto simp: queues_ok_def dict_get_dict_del app_eq_def)
  have 4: "\<forall>e\<in>set (dict_del aq a). snd e < length (map (filter (\<lambda>x. \<not> app_eq x a)) qs)"
    using assms by (auto simp: queues_ok_def dict_del_def)
  from 1 2 3 4 show ?thesis unfolding queues_ok_def by blast
qed

lemma purge_step_ok_total:
  assumes "queues_ok qs aq" "app_id a \<in> ids aq"
  shows "\<exists>qs' aq'. purge_step r a (qs, aq) = Inr (qs', aq') \<and> queues_ok qs' aq' \<and>
           length qs' = length qs \<and> ids aq - {app_id a} \<subseteq> ids aq'"
proof (cases "dict_in a r")
  case True
  with assms show ?thesis by (auto simp: purge_step_def)
next
  case False
  from assms(2) obtain j where j: "dict_get aq a = Some j"
    using dict_get_None_iff[of aq a] by auto
  from dict_get_Some_in[OF j] assms(1) have lt: "j < length qs"
    by (fastforce simp: queues_ok_def)
  have "purge_step r a (qs, aq) = Inr (map (filter (\<lambda>x. \<not> app_eq x a)) qs, dict_del aq a)"
    using False j lt purge_queues[OF assms(1) j lt] by (simp add: purge_step_def)
  moreover have "ids aq - {app_id a} \<subseteq> ids (dict_del aq a)"
    by (auto simp: ids_def dict_del_def app_eq_def)
  ultimately show ?thesis using queues_ok_purged[OF assms(1), of a] by simp
qed


lemma fold_purge_total:
  assumes "queues_ok qs aq" "distinct (map app_id ks)" "\<forall>k\<in>set ks. app_id k \<in> ids aq"
  shows "\<exists>qs' aq'. fold_err (purge_step r) ks (qs, aq) = Inr (qs', aq') \<and> queues_ok qs' aq' \<and>
           length qs' = length qs"
  using assms
proof (induction ks arbitrary: qs aq)
  case Nil
  then show ?case by simp
next
  case (Cons k ks)
  from purge_step_ok_total[OF Cons.prems(1), of k r] Cons.prems(3) obtain qs1 aq1 where
    st: "purge_step r k (qs, aq) = Inr (qs1, aq1)" and ok: "queues_ok qs1 aq1" and
    len: "length qs1 = length qs" and sub: "ids aq - {app_id k} \<subseteq> ids aq1"
    by auto
  have "\<forall>k'\<in>set ks. app_id k' \<in> ids aq1"
  proof
    fix k' assume k': "k' \<in> set ks"
    with Cons.prems(2) have "app_id k' \<noteq> app_id k" by (metis distinct.simps(2) imageI list.simps(9) set_map)
    moreover from k' Cons.prems(3) have "app_id k' \<in> ids aq" by simp
    ultimately show "app_id k' \<in> ids aq1" using sub by blast
  qed
  from Cons.IH[OF ok _ this] Cons.prems(2) st len show ?case by auto
qed

lemma admit_step_ok_total:
  assumes "queues_ok qs aq" "qs \<noteq> []"
  shows "\<exists>qs' aq'. admit_step a (qs, aq) = Inr (qs', aq') \<and> queues_ok qs' aq' \<and>
           length qs' = length qs"
proof (cases "dict_in a aq")
  case True
  with assms show ?thesis by (simp add: admit_step_def)
next
  case False
  from assms(2) obtain q rest where qs: "qs = q # rest" by (cases qs) auto
  have none: "dict_get aq a = None" using False by (simp add: dict_in_def)
  have fresh: "app_id x \<noteq> app_id a" if "i < length qs" "x \<in> set (qs ! i)" for i x
  proof
    assume "app_id x = app_id a"
    from dict_get_cong_id[OF this, of aq] assms(1) that none show False
      by (simp add: queues_ok_def)
  qed
  have 1: "dict_ok (dict_set aq a 0)" using assms(1) by (simp add: queues_ok_def dict_ok_set)
  have "app_id a \<notin> app_id ` set q" using fresh[of 0] by (force simp: qs)
  then have 2: "\<forall>q'\<in>set ((q @ [a]) # rest). distinct (map app_id q')"
    using assms(1) by (auto simp: queues_ok_def qs)
  have 3: "\<forall>i<length ((q @ [a]) # rest). \<forall>b\<in>set (((q @ [a]) # rest) ! i).
             dict_get (dict_set aq a 0) b = Some i"
  proof (intro allI impI ballI)
    fix i b
    assume i: "i < length ((q @ [a]) # rest)" and b: "b \<in> set (((q @ [a]) # rest) ! i)"
    show "dict_get (dict_set aq a 0) b = Some i"
    proof (cases "app_id b = app_id a")
      case True
      have "i = 0"
      proof (rule ccontr)
        assume "i \<noteq> 0"
        with i b have "i < length qs" "b \<in> set (qs ! i)" by (auto simp: qs nth_Cons')
        from fresh[OF this] True show False by simp
      qed
      with True show ?thesis by (simp add: dict_get_dict_set)
    next
      case False
      with i b have "i < length qs" "b \<in> set (qs ! i)" by (auto simp: qs nth_Cons')
      with assms(1) have "dict_get aq b = Some i" by (simp add: queues_ok_def)
      with False show ?thesis by (simp add: dict_get_dict_set)
    qed
  qed
  have 4: "\<forall>e\<in>set (dict_set aq a 0). snd e < length ((q @ [a]) # rest)"
    using assms(1) set_dict_set[of _ aq a 0] by (fastforce simp: queues_ok_def qs)
  have "admit_step a (qs, aq) = Inr ((q @ [a]) # rest, dict_set aq a 0)"
    using False by (simp add: admit_step_def qs)
  moreover have "queues_ok ((q @ [a]) # rest) (dict_set aq a 0)"
    unfolding queues_ok_def using 1 2 3 4 by blast
  ultimately show ?thesis by (simp add: qs)
qed

lemma fold_admit_total:
  assumes "queues_ok qs aq" "qs \<noteq> []"
  shows "\<exists>qs' aq'. fold_err admit_step ks (qs, aq) = Inr (qs', aq') \<and> queues_ok qs' aq' \<and>
           length qs' = length qs"
  using assms
proof (induction ks arbitrary: qs aq)
  case Nil
  then show ?case by simp
next
  case (Cons k ks)
  from admit_step_ok_total[OF Cons.prems, of k] obtain qs1 aq1 where
    st: "admit_step k (qs, aq) = Inr (qs1, aq1)" and ok: "queues_ok qs1 aq1" and
    len: "length qs1 = length qs"
    by auto
  have "qs1 \<noteq> []" using len Cons.prems(2) by auto
  from Cons.IH[OF ok this] st len show ?case by auto
qed


lemma queues_ok_pop:
  assumes "queues_ok qs aq" "i < length qs" "qs ! i = a # q"
  shows "queues_ok (qs[i := q]) aq" "dict_get aq a = Some i" "not_queued a (qs[i := q])"
proof -
  show tracked: "dict_get aq a = Some i" using assms by (simp add: queues_ok_def)
  have sub: "set (qs[i := q] ! j) \<subseteq> set (qs ! j)" if "j < length qs" for j
    using assms(3) that by (cases "j = i") auto
  have d: "distinct (map app_id (a # q))" using assms by (metis nth_mem queues_ok_def)
  have "\<forall>q'\<in>set (qs[i := q]). distinct (map app_id q')"
  proof
    fix q' assume "q' \<in> set (qs[i := q])"
    then have "q' = q \<or> q' \<in> set qs" using set_update_subset_insert[of qs i q] by auto
    with d assms(1) show "distinct (map app_id q')" by (auto simp: queues_ok_def)
  qed
  moreover have "\<forall>j<length (qs[i := q]). \<forall>b\<in>set (qs[i := q] ! j). dict_get aq b = Some j"
    using assms(1) sub by (fastforce simp: queues_ok_def)
  ultimately show "queues_ok (qs[i := q]) aq" using assms(1) by (simp add: queues_ok_def)
  show "not_queued a (qs[i := q])"
    unfolding not_queued_def
  proof (intro ballI notI)
    fix q' x assume q': "q' \<in> set (qs[i := q])" and x: "x \<in> set q'" and e: "app_id x = app_id a"
    from q' obtain j where j: "j < length qs" "q' = qs[i := q] ! j"
      by (auto simp: in_set_conv_nth)
    show False
    proof (cases "j = i")
      case True
      with j x assms(2) have "x \<in> set q" by simp
      with d e show False by (metis distinct.simps(2) imageI list.simps(9) set_map)
    next
      case False
      with j x have "x \<in> set (qs ! j)" by simp
      from queued_elsewhere[OF assms(1) tracked j(1) this e] False show False by simp
    qed
  qed
qed

lemma queues_ok_requeue:
  assumes "queues_ok qs aq" "not_queued a qs" "n < length qs"
  shows "queues_ok (qs[n := qs ! n @ [a]]) (dict_set aq a n)"
proof -
  have nq: "app_id x \<noteq> app_id a" if "j < length qs" "x \<in> set (qs ! j)" for j x
    using assms(2) that by (auto simp: not_queued_def)
  have 1: "dict_ok (dict_set aq a n)" using assms(1) by (simp add: queues_ok_def dict_ok_set)
  have 2: "\<forall>q'\<in>set (qs[n := qs ! n @ [a]]). distinct (map app_id q')"
  proof
    fix q' assume "q' \<in> set (qs[n := qs ! n @ [a]])"
    then have "q' = qs ! n @ [a] \<or> q' \<in> set qs"
      using set_update_subset_insert[of qs n "qs ! n @ [a]"] by auto
    moreover have "distinct (map app_id (qs ! n))" using assms(1,3) by (simp add: queues_ok_def)
    moreover have "app_id a \<notin> app_id ` set (qs ! n)" using nq[OF assms(3)] by force
    ultimately show "distinct (map app_id q')" using assms(1) by (auto simp: queues_ok_def)
  qed
  have 3: "\<forall>j<length (qs[n := qs ! n @ [a]]). \<forall>b\<in>set (qs[n := qs ! n @ [a]] ! j).
             dict_get (dict_set aq a n) b = Some j"
  proof (intro allI impI ballI)
    fix j b
    assume j: "j < length (qs[n := qs ! n @ [a]])" and b: "b \<in> set (qs[n := qs ! n @ [a]] ! j)"
    show "dict_get (dict_set aq a n) b = Some j"
    proof (cases "j = n \<and> b = a")
      case True
      then show ?thesis by (simp add: dict_get_dict_set)
    next
      case False
      with j b have in_old: "b \<in> set (qs ! j)" by (cases "j = n") auto
      with j have "app_id b \<noteq> app_id a" using nq[of j b] by simp
      moreover from assms(1) j in_old have "dict_get aq b = Some j" by (simp add: queues_ok_def)
      ultimately show ?thesis by (simp add: dict_get_dict_set)
    qed
  qed
  have 4: "\<forall>e\<in>set (dict_set aq a n). snd e < length (qs[n := qs ! n @ [a]])"
    using assms(1,3) set_dict_set[of _ aq a n] by (fastforce simp: queues_ok_def)
  from 1 2 3 4 show ?thesis unfolding queues_ok_def by blast
qed

lemma queues_ok_untrack:
  assumes "queues_ok qs aq" "not_queued a qs"
  shows "queues_ok qs (dict_del aq a)"
proof -
  have "\<forall>j<length qs. \<forall>b\<in>set (qs ! j). dict_get (dict_del aq a) b = Some j"
    using assms by (auto simp: queues_ok_def not_queued_def dict_get_dict_del)
  moreover have "\<forall>e\<in>set (dict_del aq a). snd e < length qs"
    using assms(1) by (auto simp: queues_ok_def dict_del_def)
  ultimately show ?thesis using assms(1) by (simp add: queues_ok_def dict_ok_del)
qed


lemma add_to_lookup:
  assumes "dict_in a r"
  shows "\<exists>r' sub p. add_to r a inc = Inr r' \<and> dict_get r' a = Some (sub, p)"
proof -
  from assms obtain sub p where "dict_get r a = Some (sub, p)" by (auto simp: dict_in_def)
  then show ?thesis by (simp add: add_to_def dict_get_dict_set)
qed

lemma service_total:
  assumes "queues_ok (queues m) (app_queue m)" "length (queues m) = nat (num_queues m)"
    "length (queues m) \<le> length (time_slices m)" "\<forall>i\<in>set is. i < length (queues m)"
  shows "\<exists>m' r'. service m r is = Inr (m', r') \<and> queues_ok (queues m') (app_queue m') \<and>
           length (queues m') = length (queues m) \<and> num_queues m' = num_queues m \<and>
           time_slices m' = time_slices m"
  using assms(4)
proof (induction "is")
  case Nil
  with assms show ?case by simp
next
  case (Cons i "is")
  have i: "i < length (queues m)" using Cons.prems by simp
  show ?case
  proof (cases "queues m ! i")
    case Nil
    with Cons i show ?thesis by simp
  next
    case (Cons a q)
    let ?qs1 = "(queues m)[i := q]"
    note pop = queues_ok_pop[OF assms(1) i Cons]
    show ?thesis
    proof (cases "dict_in a r")
      case False
      with Cons i pop(1) show ?thesis by (simp add: Let_def)
    next
      case True
      have ts: "i < length (time_slices m)" using i assms(3) by simp
      from add_to_lookup[OF True, of "nominalRate a * (time_slices m ! i)"] obtain r' sub p where
        r': "add_to r a (nominalRate a * (time_slices m ! i)) = Inr r'" and
        g: "dict_get r' a = Some (sub, p)" by blast
      show ?thesis
      proof (cases "p < 1")
        case True
        let ?n = "nat (min (int i + 1) (num_queues m - 1))"
        have n: "?n < length ?qs1" using i assms(2) by auto
        have "queues_ok (?qs1[?n := ?qs1 ! ?n @ [a]]) (dict_set (app_queue m) a ?n)"
          using pop(1,3) n by (rule queues_ok_requeue)
        with Cons i \<open>dict_in a r\<close> ts r' g True n show ?thesis
          by (simp add: Let_def)
      next
        case False
        have tracked: "dict_in a (app_queue m)" using pop(2) by (simp add: dict_in_def)
        have "queues_ok ?qs1 (dict_del (app_queue m) a)"
          using pop(1,3) by (rule queues_ok_untrack)
        with Cons i \<open>dict_in a r\<close> ts r' g False tracked show ?thesis
          by (simp add: Let_def)
      qed
    qed
  qed
qed

lemma mlfq_addProgress_total:
  assumes "mlfq_ok m"
  shows "\<exists>m' r'. mlfq_addProgress m r = Inr (m', r') \<and> mlfq_ok m'"
proof -
  have ok: "queues_ok (queues m) (app_queue m)" and ne: "queues m \<noteq> []"
    and len: "length (queues m) = nat (num_queues m)"
    and ts: "length (queues m) \<le> length (time_slices m)"
    using assms by (simp_all add: mlfq_ok_def)
  have "distinct (map app_id (dict_keys (app_queue m)))"
    using ok by (simp add: queues_ok_def dict_ok_def dict_keys_def comp_def)
  moreover have "\<forall>k\<in>set (dict_keys (app_queue m)). app_id k \<in> ids (app_queue m)"
    by (simp add: key_in_ids)
  ultimately obtain qs1 aq1 where
    p: "fold_err (purge_step r) (dict_keys (app_queue m)) (queues m, app_queue m) = Inr (qs1, aq1)"
    and ok1: "queues_ok qs1 aq1" and len1: "length qs1 = length (queues m)"
    using fold_purge_total[OF ok, of "dict_keys (app_queue m)" r] by blast
  have "qs1 \<noteq> []" using len1 ne by auto
  from fold_admit_total[OF ok1 this, of "dict_keys r"] obtain qs2 aq2 where
    a: "fold_err admit_step (dict_keys r) (qs1, aq1) = Inr (qs2, aq2)"
    and ok2: "queues_ok qs2 aq2" and len2: "length qs2 = length qs1"
    by blast
  let ?m2 = "m\<lparr>queues := qs2, app_queue := aq2\<rparr>"
  have "\<exists>m' r'. service ?m2 r [0 ..< nat (num_queues m)] = Inr (m', r') \<and>
          queues_ok (queues m') (app_queue m') \<and> length (queues m') = length (queues ?m2) \<and>
          num_queues m' = num_queues ?m2 \<and> time_slices m' = time_slices ?m2"
    using ok2 len len1 len2 ts by (intro service_total) simp_all
  then obtain m' r' where
    s: "service ?m2 r [0 ..< nat (num_queues m)] = Inr (m', r')" and
    ok': "queues_ok (queues m') (app_queue m')" and len': "length (queues m') = length qs2" and
    same: "num_queues m' = num_queues m" "time_slices m' = time_slices m"
    by auto
  have "mlfq_ok m'"
    using ok' len' len2 len1 len ts ne same by (auto simp: mlfq_ok_def)
  with p a s show ?thesis by (simp add: mlfq_addProgress_def)
qed

lemma mlfq_ok_init:
  "1 \<le> n \<Longrightarrow> nat n \<le> length ts \<Longrightarrow>
   mlfq_ok \<lparr>num_queues = n, time_slices = ts, queues = replicate (nat n) [], app_queue = []\<rparr>"
  by (auto simp: mlfq_ok_def queues_ok_def dict_ok_def)

lemma MultilevelFeedbackQueue_cannot_raise:
  "1 \<le> n \<Longrightarrow> nat n \<le> length ts \<Longrightarrow> cannot_raise (MultilevelFeedbackQueue n ts)"
  by (simp add: cannot_raise_def MultilevelFeedbackQueue_def mlfq_ok_init)

section \<open>Policies that cannot raise\<close>

lemma addProgress_kind:
  "addProgress sch r t = Inr (sch', r') \<Longrightarrow> cannot_raise sch \<Longrightarrow> \<not> is_MLFQ sch \<Longrightarrow>
   cannot_raise sch'"
  by (cases sch) (auto simp: cannot_raise_def is_MLFQ_def Let_def split: list.splits sum.splits)

lemma addProgress_MLFQ_returns:
  assumes "mlfq_ok m"
  shows "\<exists>m' r'. addProgress (MLFQ m) r t = Inr (MLFQ m', r') \<and> mlfq_ok m'"
proof (cases r)
  case Nil
  with assms show ?thesis by simp
next
  case (Cons e es)
  from mlfq_addProgress_total[OF assms, of r] obtain m' r' where
    "mlfq_addProgress m r = Inr (m', r')" "mlfq_ok m'" by blast
  with Cons show ?thesis by simp
qed

lemma addProgress_cannot_raise:
  assumes "cannot_raise sch"
  shows "\<exists>sch' r'. addProgress sch r t = Inr (sch', r') \<and> cannot_raise sch'"
proof (cases "is_MLFQ sch")
  case True
  then obtain m where m: "sch = MLFQ m" by (cases sch) (simp_all add: is_MLFQ_def)
  with assms have "mlfq_ok m" by (simp add: cannot_raise_def)
  from addProgress_MLFQ_returns[OF this, of r t] m show ?thesis
    by (auto simp: cannot_raise_def)
next
  case False
  have "sch \<noteq> Scheduler"
    "\<forall>pr. sch = PriorityScheduler pr \<longrightarrow> list_all (\<lambda>a. dict_in a pr) (dict_keys r)"
    using assms by (cases sch; simp add: cannot_raise_def)+
  from addProgress_returns[OF this(1) False this(2), of t] addProgress_kind[OF _ assms False]
  show ?thesis by blast
qed

lemma tick_cannot_raise:
  assumes "cannot_raise sch"
  shows "\<exists>sch' s'. tick sch s t = Inr (sch', s') \<and> cannot_raise sch'"
proof (cases "running s = []")
  case True
  with assms show ?thesis by (simp add: tick_def)
next
  case False
  from addProgress_cannot_raise[OF assms, of "running s" t] obtain sch' r' where
    "addProgress sch (running s) t = Inr (sch', r')" "cannot_raise sch'" by blast
  with False show ?thesis by (simp add: tick_unfold)
qed

lemma simulate_states_returns:
  "cannot_raise sch \<Longrightarrow>
   \<exists>sch' S. simulate_states h apps t sch states acc = Inr (sch', S) \<and> cannot_raise sch'"
proof (induction states arbitrary: sch acc)
  case Nil
  then show ?case by simp
next
  case (Cons x states)
  from tick_cannot_raise[OF Cons.prems, of x t] obtain sch1 x1 where
    tk: "tick sch x t = Inr (sch1, x1)" and c: "cannot_raise sch1" by blast
  from Cons.IH[OF c, of "set_union h acc (nextStates h apps x1 t)"] tk show ?case by simp
qed

lemma simulate_steps_returns:
  "cannot_raise sch \<Longrightarrow>
   \<exists>sch' S. simulate_steps h iter apps sch states ts = Inr (sch', S) \<and> cannot_raise sch'"
proof (induction ts arbitrary: sch states)
  case Nil
  then show ?case by simp
next
  case (Cons t ts)
  from simulate_states_returns[OF Cons.prems, of h apps t "iter states" "[]"] obtain sch1 S1 where
    st: "simulate_states h apps t sch (iter states) [] = Inr (sch1, S1)" and c: "cannot_raise sch1"
    by blast
  from Cons.IH[OF c, of S1] st show ?case by simp
qed

section \<open>The divisions of the metrics\<close>

lemma fold_err_total:
  "(\<And>x s. x \<in> set xs \<Longrightarrow> \<exists>s'. f x s = Inr s') \<Longrightarrow> \<exists>s'. fold_err f xs s = Inr s'"
proof (induction xs arbitrary: s)
  case Nil
  show ?case by simp
next
  case (Cons x xs)
  from Cons.prems[of x s] obtain s1 where s1: "f x s = Inr s1" by auto
  have "\<exists>s'. fold_err f xs s1 = Inr s'" by (rule Cons.IH) (simp add: Cons.prems)
  with s1 show ?case by simp
qed

lemma spark_error_ok: "deadlines_ok s \<Longrightarrow> \<exists>v. spark_error s apps = Inr v"
proof -
  assume ok: "deadlines_ok s"
  have "\<exists>acc. fold_err error_step (ended s) (0, 0) = Inr acc"
    using ok by (intro fold_err_total) (auto simp: deadlines_ok_def list_all_iff error_step_def Let_def)
  then show ?thesis by (auto simp: spark_error_def Let_def)
qed

lemma sum_errors_ok: "list_all deadlines_ok S \<Longrightarrow> \<exists>v. sum_errors S apps = Inr v"
  unfolding sum_errors_def
proof (rule fold_err_total)
  fix x acc
  assume "list_all deadlines_ok S" "x \<in> set S"
  then have "deadlines_ok x" by (simp add: list_all_iff)
  from spark_error_ok[OF this, of apps]
  show "\<exists>s'. (case spark_error x apps of Inl err \<Rightarrow> Inl err
                | Inr e \<Rightarrow> Inr (fst acc + fst e, snd acc + snd e)) = Inr s'"
    by auto
qed

lemma computeMetrics_empty: "computeMetrics [] apps steps = Inl ZeroDivisionError"
  by (simp add: computeMetrics_def sum_errors_def)

lemma computeMetrics_ok:
  assumes "S \<noteq> []" "list_all deadlines_ok S"
  shows "\<exists>m. computeMetrics S apps steps = Inr m \<and> num_states m = length S"
proof -
  from sum_errors_ok[OF assms(2), of apps] obtain v where "sum_errors S apps = Inr v" by blast
  with assms(1) show ?thesis by (simp add: computeMetrics_def Let_def)
qed

text \<open>
  C10. \<^verbatim>\<open>nextStates(apps, s, t)\<close> always holds \<open>s\<close> (the branch in which no job
  arrives), so the set that \<^verbatim>\<open>simulate\<close> returns is never empty, and
  \<^verbatim>\<open>computeMetrics\<close> on it never divides by a zero \<^verbatim>\<open>len(states)\<close>: it returns its
  record, with \<^verbatim>\<open>num_states\<close> positive, unless \<^verbatim>\<open>Spark.error\<close> itself divides by a zero
  deadline. (On the empty set the divisions would raise.) \<^verbatim>\<open>simulate\<close> does return
  whenever the policy is one that cannot raise; with the priority policy, or with a
  multilevel queue built with too few queues or time slices, an exception of
  \<^verbatim>\<open>addProgress\<close> ends the run before any metric is computed.
\<close>

theorem terminal_set_nonempty:
  assumes "iter_ok iter"
  shows "set_member h (nextStates h apps s t) s \<and>
         (\<forall>sch' S. simulate h iter sch initial apps steps = Inr (sch', S) \<longrightarrow>
            S \<noteq> [] \<and>
            (list_all deadlines_ok S \<longrightarrow>
               (\<exists>m. computeMetrics S apps steps = Inr m \<and> num_states m = length S \<and>
                    0 < num_states m))) \<and>
         (cannot_raise sch \<longrightarrow> (\<exists>sch' S. simulate h iter sch initial apps steps = Inr (sch', S))) \<and>
         computeMetrics [] apps steps = Inl ZeroDivisionError"
proof -
  have "S \<noteq> [] \<and>
        (list_all deadlines_ok S \<longrightarrow>
           (\<exists>m. computeMetrics S apps steps = Inr m \<and> num_states m = length S \<and> 0 < num_states m))"
    if run: "simulate h iter sch initial apps steps = Inr (sch', S)" for sch' S
  proof -
    have ne: "S \<noteq> []" using assms run by (rule simulate_nonempty)
    with computeMetrics_ok[OF ne, of apps steps] show ?thesis by force
  qed
  moreover have "\<exists>sch' S. simulate h iter sch initial apps steps = Inr (sch', S)"
    if "cannot_raise sch"
    using simulate_steps_returns[OF that, of h iter apps "[initial]" "[0..steps]"]
    by (auto simp: simulate_def)
  ultimately show ?thesis
    using nextStates_member[of h apps s t] computeMetrics_empty[of apps steps] by blast
qed

theorem terminal_set_nonempty_witness:
  "simulate zero_hash insertion_order FIFO seed_a [job_a] 3 =
     Inr (FIFO, [\<lparr>running = [], ended = [(job_a, (1, 1))]\<rparr>]) \<and>
   (\<exists>m. computeMetrics [\<lparr>running = [], ended = [(job_a, (1, 1))]\<rparr>] [job_a] 3 = Inr m \<and>
        num_states m = 1)"
proof -
  have run: "simulate zero_hash insertion_order FIFO seed_a [job_a] 3 =
     Inr (FIFO, [\<lparr>running = [], ended = [(job_a, (1, 1))]\<rparr>])"
    using iter_ok_insertion_order by (rule scenario_A_run)
  have d: "list_all deadlines_ok [\<lparr>running = [], ended = [(job_a, (1, 1))]\<rparr>]"
    by (simp add: deadlines_ok_def job_a_def)
  from terminal_set_nonempty[OF iter_ok_insertion_order, of zero_hash "[job_a]" _ _ FIFO seed_a 3]
    run d
  have "\<exists>m. computeMetrics [\<lparr>running = [], ended = [(job_a, (1, 1))]\<rparr>] [job_a] 3 = Inr m \<and>
        num_states m = length [\<lparr>running = [], ended = [(job_a, (1, 1 :: int))]\<rparr>]"
    by blast
  with run show ?thesis by simp
qed

section \<open>Reachable states are timeline states\<close>

lemma schedule_timeline_ok: "timeline_ok s \<Longrightarrow> timeline_ok (schedule s a t)"
proof -
  assume ok: "timeline_ok s"
  show ?thesis
  proof (cases "present s (app_id a) \<or> \<not> present s (app_id a - 1)")
    case True
    with ok show ?thesis by (simp add: schedule_unfold)
  next
    case False
    then have new: "app_id a \<notin> ids (running s)" "app_id a \<notin> ids (ended s)"
      by (auto simp: present_def)
    have "dict_ok (running s @ [(a, (t, 0))])"
      using ok new(1) by (simp add: dict_ok_append timeline_ok_def) (simp add: dict_ok_def)
    moreover have "ids (running s @ [(a, (t, 0))]) \<inter> ids (ended s) = {}"
      using ok new(2) by (simp add: timeline_ok_def disjoint_iff_list_all)
    ultimately show ?thesis
      using ok False by (simp add: schedule_unfold timeline_ok_def disjoint_iff_list_all)
  qed
qed

lemma tick_timeline_ok:
  assumes "tick sch s t = Inr (sch', s')" "timeline_ok s"
  shows "timeline_ok s'"
proof (cases "running s = []")
  case True
  with assms show ?thesis by (simp add: tick_def)
next
  case False
  with assms(1) obtain r where run: "addProgress sch (running s) t = Inr (sch', r)"
    unfolding tick_unfold by (auto split: sum.splits)
  from tick_ok_unfold[OF assms(2) run False] assms(1) have "s' = after_tick s r t" by simp
  with after_tick_ok[OF assms(2) addProgress_subs[OF run]] show ?thesis by simp
qed

lemma simulate_timeline_ok:
  assumes "iter_ok iter" "timeline_ok initial"
    "simulate h iter sch initial apps steps = Inr (sch', S)"
  shows "list_all timeline_ok S"
  using assms(3,2) unfolding simulate_def
  by (intro simulate_steps_inv[of timeline_ok iter h apps sch "[initial]" "[0..steps]" sch' S]
        schedule_timeline_ok assms(1)) (auto intro: tick_timeline_ok)

section \<open>Policies: the contract of a call\<close>

text \<open>
  C7. For each of the nine policies (every constructor but the abstract base), with
  running jobs built from positive durations, time slices that are not negative and a
  priority entry for every running job: \<^verbatim>\<open>addProgress\<close> on an empty \<^verbatim>\<open>running\<close>
  returns at once and leaves the dict and the policy object as they were; on any
  \<^verbatim>\<open>running\<close>, a call that returns leaves the keys, their order and their submission
  times unchanged and lowers no progress value; and the call does return, for the
  multilevel queue provided it is in a consistent state (it raises \<^verbatim>\<open>IndexError\<close>
  when it was built with no queue or with fewer time slices than queues).
\<close>

theorem addProgress_never_decreases:
  assumes "sch \<noteq> Scheduler" and "policy_ok sch r"
  shows "addProgress sch [] t = Inr (sch, []) \<and>
         ((\<forall>m. sch = MLFQ m \<longrightarrow> mlfq_ok m) \<longrightarrow>
            (\<exists>sch' r'. addProgress sch r t = Inr (sch', r'))) \<and>
         (\<forall>sch' r'. addProgress sch r t = Inr (sch', r') \<longrightarrow>
            subs r' = subs r \<and> progress_le r r' \<and>
            (\<forall>a sub p. dict_get r a = Some (sub, p) \<longrightarrow>
               (\<exists>p'. dict_get r' a = Some (sub, p') \<and> p \<le> p')))"
proof -
  have "subs r' = subs r \<and> progress_le r r' \<and>
        (\<forall>a sub p. dict_get r a = Some (sub, p) \<longrightarrow>
               (\<exists>p'. dict_get r' a = Some (sub, p') \<and> p \<le> p'))"
    if run: "addProgress sch r t = Inr (sch', r')" for sch' r'
  proof -
    have s: "subs r' = subs r" using run by (rule addProgress_subs)
    have p: "progress_le r r'" using run assms(2) by (rule addProgress_progress)
    from s p lookup_mono[OF s p] show ?thesis by blast
  qed
  moreover have "\<forall>pr. sch = PriorityScheduler pr \<longrightarrow>
      list_all (\<lambda>a. dict_in a pr) (dict_keys r)"
    using assms(2) by (auto simp: policy_ok_def)
  moreover have "\<exists>sch' r'. addProgress sch r t = Inr (sch', r')"
    if "is_MLFQ sch" "\<forall>m. sch = MLFQ m \<longrightarrow> mlfq_ok m"
  proof -
    from that(1) obtain m where m: "sch = MLFQ m" by (cases sch) (simp_all add: is_MLFQ_def)
    with that(2) have "mlfq_ok m" by simp
    from addProgress_MLFQ_returns[OF this, of r t] m show ?thesis by blast
  qed
  ultimately show ?thesis
    using addProgress_empty[OF assms(1)] addProgress_returns[OF assms(1), of r t] by blast
qed

theorem addProgress_never_decreases_witness:
  "addProgress Fair two_running 7 = Inr (Fair, [(unit1, (0, 1 / 2)), (unit2, (0, 1 / 2))]) \<and>
   addProgress (RoundRobin_init 10) two_running 7 =
     Inr (RoundRobin 10 0, [(unit1, (0, 10)), (unit2, (0, 0))]) \<and>
   (\<exists>m. addProgress mlfq_sample two_running 7 =
     Inr (MLFQ m, [(unit1, (0, 10)), (unit2, (0, 0))])) \<and>
   progress_le two_running [(unit1, (0, 10)), (unit2, (0, 0))]"
proof -
  have ok: "list_all app_ok (dict_keys two_running)"
    by (simp add: two_running_def dict_keys_def app_ok_def unit1_def unit2_def Fract_of_int_quotient)
  have fair: "addProgress Fair two_running 7 =
      Inr (Fair, [(unit1, (0, 1 / 2)), (unit2, (0, 1 / 2))])"
    by (simp add: two_running_def dict_keys_def unit1_def unit2_def app_eq_def add_to_def)
  have rr: "addProgress (RoundRobin_init 10) two_running 7 =
     Inr (RoundRobin 10 0, [(unit1, (0, 10)), (unit2, (0, 0))])"
    by (simp add: RoundRobin_init_def two_running_def dict_keys_def unit1_def unit2_def app_eq_def
        add_to_def)
  have mq: "\<exists>m. addProgress mlfq_sample two_running 7 =
     Inr (MLFQ m, [(unit1, (0, 10)), (unit2, (0, 0))])"
    by (simp add: mlfq_sample_def MultilevelFeedbackQueue_def two_running_def mlfq_addProgress_def
        dict_keys_def unit1_def unit2_def app_eq_def add_to_def admit_step_def dict_in_def
        numeral_3_eq_3 upt_rec dict_del_def)
  have mok: "policy_ok mlfq_sample two_running"
    using ok by (simp add: policy_ok_def mlfq_sample_def MultilevelFeedbackQueue_def numeral_3_eq_3)
  from mq obtain m where m: "addProgress mlfq_sample two_running 7 =
     Inr (MLFQ m, [(unit1, (0, 10)), (unit2, (0, 0))])" by blast
  have "mlfq_sample \<noteq> Scheduler" by (simp add: mlfq_sample_def MultilevelFeedbackQueue_def)
  from addProgress_never_decreases[OF this mok, of 7] m
  have "progress_le two_running [(unit1, (0, 10)), (unit2, (0, 0))]" by blast
  with fair rr mq show ?thesis by blast
qed

end
